theory Spec2Isabelle
  imports Main "HOL-Library.Word" "HOL-Library.Monad_Syntax"
begin

unbundle bit_operations_syntax

section \<open>Data model of the SSD1306 driver\<close>

text \<open>
  The driver is C for a 32-bit target: \<open>uint8_t\<close>, \<open>uint16_t\<close> and \<open>int16_t\<close> are words of
  that width, and arithmetic on them happens in \<open>int\<close> (32 bit) after promotion, with
  the result cut back to the width of the variable on assignment. Where a value cannot
  leave the range of \<open>int\<close> or \<open>size_t\<close>, it is computed in \<open>nat\<close> or \<open>int\<close> directly.
\<close>

type_synonym u8 = "8 word"
type_synonym u16 = "16 word"
type_synonym i16 = "16 word"  \<comment> \<open>an \<open>int16_t\<close>: the same 16 bits, read with \<open>sint\<close>\<close>

text \<open>
  One blocking write on the two-wire bus, \<open>i2c_write_blocking (inst, addr, src, len, _)\<close>:
  the bus instance, the slave address and the \<open>len\<close> bytes sent. The transport is the
  list of the writes made so far, oldest first.
\<close>

type_synonym i2c_write = "nat \<times> u8 \<times> u8 list"
type_synonym i2c_bus = "i2c_write list"

text \<open>
  \<open>ssd1306_t\<close> of \<open>ssd1306.h\<close>. The field \<open>buff\<close> is a pointer into a heap block of
  \<open>buff_size + 1\<close> bytes, kept advanced by one: \<open>None\<close> is \<open>NULL\<close>, and
  \<open>Some (c, bs)\<close> is a block whose leading byte \<open>dev->buff[-1]\<close> is \<open>c\<close> and whose
  bytes \<open>dev->buff[0]\<close>, \<open>dev->buff[1]\<close>, ... are \<open>bs\<close>.
\<close>

record ssd1306_t =
  width :: u16
  height :: u16
  pages :: u16
  i2c_addr :: u8
  i2c_inst :: nat
  external_vcc :: bool
  buff :: "(u8 \<times> u8 list) option"
  buff_size :: nat

text \<open>
  Operations that touch the frame buffer return \<open>None\<close> where the C has no defined
  result: a \<open>NULL\<close> buffer is dereferenced, a byte outside the block is read or written,
  an \<open>int\<close> computation overflows, or a loop never ends.
\<close>

definition i2c_write_blocking :: "nat \<Rightarrow> u8 \<Rightarrow> u8 list \<Rightarrow> i2c_bus \<Rightarrow> i2c_bus" where
  "i2c_write_blocking inst addr src bus = bus @ [(inst, addr, src)]"

definition write_command :: "ssd1306_t \<Rightarrow> u8 \<Rightarrow> i2c_bus \<Rightarrow> i2c_bus" where
  "write_command dev cmd bus =
     i2c_write_blocking (i2c_inst dev) (i2c_addr dev) [0x00, cmd] bus"

text \<open>A list of command bytes written one after the other, as the C loops over arrays do.\<close>

fun write_commands :: "ssd1306_t \<Rightarrow> u8 list \<Rightarrow> i2c_bus \<Rightarrow> i2c_bus" where
  "write_commands dev [] bus = bus"
| "write_commands dev (c # cs) bus = write_commands dev cs (write_command dev c bus)"

section \<open>Horizontal scroll\<close>

definition ssd1306_scroll_horiz_stop :: "ssd1306_t \<Rightarrow> i2c_bus \<Rightarrow> i2c_bus" where
  "ssd1306_scroll_horiz_stop dev bus = write_command dev 0x2E bus"

definition ssd1306_scroll_horiz ::
  "ssd1306_t \<Rightarrow> bool \<Rightarrow> u8 \<Rightarrow> u8 \<Rightarrow> u8 \<Rightarrow> i2c_bus \<Rightarrow> i2c_bus" where
  "ssd1306_scroll_horiz dev right start_page end_page speed bus =
     (let b0 = ssd1306_scroll_horiz_stop dev bus;
          b1 = write_command dev (if right then 0x26 else 0x27) b0;
          b2 = write_command dev 0x00 b1;
          b3 = write_command dev (start_page AND 0x07) b2;
          b4 = write_command dev (speed AND 0x00) b3;
          b5 = write_command dev (end_page AND 0x07) b4;
          b6 = write_command dev 0x00 b5;
          b7 = write_command dev 0xFF b6
      in write_command dev 0x2F b7)"

text \<open>The command frame of one opcode, as it appears on the transport.\<close>

definition cmd_frame :: "ssd1306_t \<Rightarrow> u8 \<Rightarrow> i2c_write" where
  "cmd_frame dev c = (i2c_inst dev, i2c_addr dev, [0x00, c])"


section \<open>Initialisation and flushing\<close>

definition SET_CONTRAST :: u8 where "SET_CONTRAST = 0x81"
definition SET_ENTIRE_ON :: u8 where "SET_ENTIRE_ON = 0xA4"
definition SET_NORM_INV :: u8 where "SET_NORM_INV = 0xA6"
definition SET_DISP :: u8 where "SET_DISP = 0xAE"
definition SET_MEM_ADDR :: u8 where "SET_MEM_ADDR = 0x20"
definition SET_COL_ADDR :: u8 where "SET_COL_ADDR = 0x21"
definition SET_PAGE_ADDR :: u8 where "SET_PAGE_ADDR = 0x22"
definition SET_DISP_START_LINE :: u8 where "SET_DISP_START_LINE = 0x40"
definition SET_SEG_REMAP :: u8 where "SET_SEG_REMAP = 0xA0"
definition SET_MUX_RATIO :: u8 where "SET_MUX_RATIO = 0xA8"
definition SET_COM_OUT_DIR :: u8 where "SET_COM_OUT_DIR = 0xC0"
definition SET_DISP_OFFSET :: u8 where "SET_DISP_OFFSET = 0xD3"
definition SET_COM_PIN_CFG :: u8 where "SET_COM_PIN_CFG = 0xDA"
definition SET_DISP_CLK_DIV :: u8 where "SET_DISP_CLK_DIV = 0xD5"
definition SET_PRECHARGE :: u8 where "SET_PRECHARGE = 0xD9"
definition SET_VCOM_DESEL :: u8 where "SET_VCOM_DESEL = 0xDB"
definition SET_CHARGE_PUMP :: u8 where "SET_CHARGE_PUMP = 0x8D"

definition init_commands :: "ssd1306_t \<Rightarrow> u8 list" where
  "init_commands dev =
     [SET_DISP,
      SET_MUX_RATIO, word_of_int (uint (height dev) - 1),
      SET_DISP_OFFSET, 0x00,
      SET_DISP_START_LINE,
      SET_SEG_REMAP OR 0x01,
      SET_COM_OUT_DIR OR 0x08,
      SET_COM_PIN_CFG, if uint (width dev) > 2 * uint (height dev) then 0x02 else 0x12,
      SET_CONTRAST, 0xFF,
      SET_ENTIRE_ON,
      SET_NORM_INV,
      SET_DISP_CLK_DIV, 0x80,
      SET_CHARGE_PUMP, if external_vcc dev then 0x10 else 0x14,
      SET_PRECHARGE, if external_vcc dev then 0x22 else 0xF1,
      SET_VCOM_DESEL, 0x30,
      SET_MEM_ADDR, 0x00,
      SET_DISP OR 0x01]"

definition run_init_commands :: "ssd1306_t \<Rightarrow> i2c_bus \<Rightarrow> i2c_bus" where
  "run_init_commands dev bus = write_commands dev (init_commands dev) bus"

text \<open>
  \<open>malloc\<close> is an input of the model: it fails, or it returns a fresh block whose bytes
  are whatever the memory held (the byte at offset \<open>k\<close> is \<open>f k\<close>).
\<close>

datatype alloc = Alloc_fail | Alloc_ok "nat \<Rightarrow> u8"

fun malloc :: "alloc \<Rightarrow> nat \<Rightarrow> u8 list option" where
  "malloc Alloc_fail n = None"
| "malloc (Alloc_ok f) n = Some (map f [0..<n])"

text \<open>
  \<open>ssd1306_init\<close> writes the fields before it allocates. \<open>width * dev->pages\<close> is at most
  65535 * 8191, which fits \<open>int\<close> and \<open>size_t\<close>. The result is the returned flag, the
  device and the transport.
\<close>

definition ssd1306_init ::
  "ssd1306_t \<Rightarrow> u16 \<Rightarrow> u16 \<Rightarrow> u8 \<Rightarrow> nat \<Rightarrow> bool \<Rightarrow> alloc \<Rightarrow> i2c_bus
     \<Rightarrow> bool \<times> ssd1306_t \<times> i2c_bus" where
  "ssd1306_init dev w h addr inst ext heap bus =
     (let d1 = dev\<lparr>width := w, height := h, pages := word_of_int (uint h div 8),
                   i2c_addr := addr, i2c_inst := inst, external_vcc := ext\<rparr>;
          d2 = d1\<lparr>buff_size := unat w * unat (pages d1)\<rparr>
      in case malloc heap (buff_size d2 + 1) of
           None \<Rightarrow> (False, d2\<lparr>buff := None\<rparr>, bus)
         | Some m \<Rightarrow>
             let d3 = d2\<lparr>buff := Some (hd m, tl m)\<rparr>;
                 b1 = run_init_commands d3 bus
             in (True, d3, ssd1306_scroll_horiz_stop d3 b1))"

definition ssd1306_deinit :: "ssd1306_t \<Rightarrow> ssd1306_t" where
  "ssd1306_deinit dev = (case buff dev of None \<Rightarrow> dev | Some m \<Rightarrow> dev\<lparr>buff := None\<rparr>)"

definition ssd1306_power_off :: "ssd1306_t \<Rightarrow> i2c_bus \<Rightarrow> i2c_bus" where
  "ssd1306_power_off dev bus = write_command dev SET_DISP bus"

definition ssd1306_power_on :: "ssd1306_t \<Rightarrow> i2c_bus \<Rightarrow> i2c_bus" where
  "ssd1306_power_on dev bus = write_command dev (SET_DISP OR 0x01) bus"

text \<open>\<open>memset (dev->buff, 0, dev->buff_size)\<close>.\<close>

definition ssd1306_clear :: "ssd1306_t \<Rightarrow> ssd1306_t option" where
  "ssd1306_clear dev =
     (case buff dev of
        None \<Rightarrow> None
      | Some (c, bs) \<Rightarrow>
          if buff_size dev \<le> length bs
          then Some (dev\<lparr>buff := Some (c, replicate (buff_size dev) 0 @ drop (buff_size dev) bs)\<rparr>)
          else None)"

definition ssd1306_invert :: "ssd1306_t \<Rightarrow> u8 \<Rightarrow> i2c_bus \<Rightarrow> i2c_bus" where
  "ssd1306_invert dev inv1 bus = write_command dev (SET_NORM_INV OR (inv1 AND 1)) bus"

text \<open>
  \<open>ssd1306_show\<close>: six commands, then the byte before the buffer is set to 0x40 and the
  \<open>buff_size + 1\<close> bytes from there go out in one write.
\<close>

definition ssd1306_show :: "ssd1306_t \<Rightarrow> i2c_bus \<Rightarrow> (ssd1306_t \<times> i2c_bus) option" where
  "ssd1306_show dev bus =
     (let data = [SET_COL_ADDR, 0x00, word_of_int (uint (width dev) - 1),
                  SET_PAGE_ADDR, 0x00, word_of_int (uint (pages dev) - 1)];
          b1 = write_commands dev data bus
      in case buff dev of
           None \<Rightarrow> None
         | Some (c, bs) \<Rightarrow>
             if buff_size dev \<le> length bs
             then Some (dev\<lparr>buff := Some (0x40, bs)\<rparr>,
                        i2c_write_blocking (i2c_inst dev) (i2c_addr dev)
                          (0x40 # take (buff_size dev) bs) b1)
             else None)"

definition ssd1306_contrast :: "ssd1306_t \<Rightarrow> u8 \<Rightarrow> i2c_bus \<Rightarrow> i2c_bus" where
  "ssd1306_contrast p val bus = write_command p val (write_command p SET_CONTRAST bus)"

section \<open>Pixels\<close>

text \<open>
  \<open>draw_pixel\<close>: the index \<open>x + dev->width * (y >> 3)\<close> is computed in \<open>int\<close> and is below
  \<open>2 ^ 30\<close>; the mask \<open>0x01u << (y & 7)\<close> is cut to a byte by the assignment.
\<close>

definition draw_pixel :: "ssd1306_t \<Rightarrow> u16 \<Rightarrow> u16 \<Rightarrow> bool \<Rightarrow> ssd1306_t option" where
  "draw_pixel dev x y color =
     (if x < width dev \<and> y < height dev then
        case buff dev of
          None \<Rightarrow> None
        | Some (c, bs) \<Rightarrow>
            let idx = unat x + unat (width dev) * unat (drop_bit 3 y);
                mask = (push_bit (unat (y AND 7)) 1 :: u8)
            in if idx < length bs
               then Some (dev\<lparr>buff := Some (c, bs[idx :=
                      (if color then bs ! idx OR mask else bs ! idx AND NOT mask)])\<rparr>)
               else None
      else Some dev)"

definition ssd1306_draw_pixel :: "ssd1306_t \<Rightarrow> u16 \<Rightarrow> u16 \<Rightarrow> ssd1306_t option" where
  "ssd1306_draw_pixel dev x y = draw_pixel dev x y True"

definition ssd1306_clear_pixel :: "ssd1306_t \<Rightarrow> u16 \<Rightarrow> u16 \<Rightarrow> ssd1306_t option" where
  "ssd1306_clear_pixel dev x y = draw_pixel dev x y False"

section \<open>Lines\<close>

text \<open>
  The two loops of \<open>ssd1306_draw_line\<close>. Every assignment to the 16-bit variables cuts the
  \<open>int\<close> result back to 16 bits. The loops end when the running coordinate meets the
  target; the model does not assume that they do.
\<close>

partial_function (option) draw_line_x ::
  "ssd1306_t \<Rightarrow> u16 \<Rightarrow> u16 \<Rightarrow> u16 \<Rightarrow> i16 \<Rightarrow> i16 \<Rightarrow> i16 \<Rightarrow> i16 \<Rightarrow> i16 \<Rightarrow> ssd1306_t option" where
  "draw_line_x dev x1 y1 x2 D dx dy step_x step_y =
     (if x1 \<noteq> x2 then
        let x1' = (word_of_int (uint x1 + sint step_x) :: u16);
            y1' = (if 0 \<le> sint D then word_of_int (uint y1 + sint step_y) else y1);
            D1 = (if 0 \<le> sint D then word_of_int (sint D - 2 * sint dx) else D);
            D2 = (word_of_int (sint D1 + 2 * sint dy) :: i16)
        in Option.bind (draw_pixel dev x1' y1' True)
             (\<lambda>d. draw_line_x d x1' y1' x2 D2 dx dy step_x step_y)
      else Some dev)"

partial_function (option) draw_line_y ::
  "ssd1306_t \<Rightarrow> u16 \<Rightarrow> u16 \<Rightarrow> u16 \<Rightarrow> i16 \<Rightarrow> i16 \<Rightarrow> i16 \<Rightarrow> i16 \<Rightarrow> i16 \<Rightarrow> ssd1306_t option" where
  "draw_line_y dev x1 y1 y2 D dx dy step_x step_y =
     (if y1 \<noteq> y2 then
        let y1' = (word_of_int (uint y1 + sint step_y) :: u16);
            x1' = (if sint D \<le> 0 then word_of_int (uint x1 + sint step_x) else x1);
            D1 = (if sint D \<le> 0 then word_of_int (sint D + 2 * sint dy) else D);
            D2 = (word_of_int (sint D1 - 2 * sint dx) :: i16)
        in Option.bind (draw_pixel dev x1' y1' True)
             (\<lambda>d. draw_line_y d x1' y1' y2 D2 dx dy step_x step_y)
      else Some dev)"

definition ssd1306_draw_line ::
  "ssd1306_t \<Rightarrow> u16 \<Rightarrow> u16 \<Rightarrow> u16 \<Rightarrow> u16 \<Rightarrow> ssd1306_t option" where
  "ssd1306_draw_line dev x1 y1 x2 y2 =
     (let dx0 = (word_of_int (uint x2 - uint x1) :: i16);
          dy0 = (word_of_int (uint y2 - uint y1) :: i16);
          dx = (if sint dx0 < 0 then word_of_int (- sint dx0) else dx0);
          step_x = (if sint dx0 < 0 then word_of_int (- 1) else 1 :: i16);
          dy = (if sint dy0 < 0 then word_of_int (- sint dy0) else dy0);
          step_y = (if sint dy0 < 0 then word_of_int (- 1) else 1 :: i16)
      in Option.bind (draw_pixel dev x1 y1 True)
           (\<lambda>d. if sint dy < sint dx
                then draw_line_x d x1 y1 x2 (word_of_int (sint dy * 2 - sint dx)) dx dy step_x step_y
                else draw_line_y d x1 y1 y2 (word_of_int (sint dy - sint dx * 2)) dx dy step_x step_y))"

section \<open>Rectangle outline\<close>

text \<open>
  The loops of \<open>ssd1306_draw_rect\<close> count with an \<open>int16_t\<close> against an \<open>int\<close> bound; the
  counter wraps from 32767 to -32768, so a bound above 32767 is never reached.
\<close>

partial_function (option) draw_rect_rows ::
  "ssd1306_t \<Rightarrow> i16 \<Rightarrow> int \<Rightarrow> u16 \<Rightarrow> u16 \<Rightarrow> ssd1306_t option" where
  "draw_rect_rows dev i bound ya yb =
     (if sint i < bound then
        Option.bind (draw_pixel dev i ya True) (\<lambda>d1.
        Option.bind (draw_pixel d1 i yb True) (\<lambda>d2.
        draw_rect_rows d2 (word_of_int (sint i + 1)) bound ya yb))
      else Some dev)"

partial_function (option) draw_rect_cols ::
  "ssd1306_t \<Rightarrow> i16 \<Rightarrow> int \<Rightarrow> u16 \<Rightarrow> u16 \<Rightarrow> ssd1306_t option" where
  "draw_rect_cols dev i bound xa xb =
     (if sint i < bound then
        Option.bind (draw_pixel dev xa i True) (\<lambda>d1.
        Option.bind (draw_pixel d1 xb i True) (\<lambda>d2.
        draw_rect_cols d2 (word_of_int (sint i + 1)) bound xa xb))
      else Some dev)"

definition ssd1306_draw_rect ::
  "ssd1306_t \<Rightarrow> i16 \<Rightarrow> i16 \<Rightarrow> u16 \<Rightarrow> u16 \<Rightarrow> ssd1306_t option" where
  "ssd1306_draw_rect dev x y w h =
     Option.bind
       (draw_rect_rows dev x (sint x + sint w) y (word_of_int (sint y + uint h - 1)))
       (\<lambda>d. draw_rect_cols d y (sint y + sint h) x (word_of_int (sint x + uint w - 1)))"

section \<open>Counting loops\<close>

text \<open>
  \<open>for (i = a; i < n; ++i) body\<close> with an unsigned counter below a 16-bit bound (the
  increment cannot wrap), and \<open>for (int page = a; page >= 0; --page) body\<close>.
\<close>

function for_loop :: "nat \<Rightarrow> nat \<Rightarrow> (nat \<Rightarrow> 's \<Rightarrow> 's option) \<Rightarrow> 's \<Rightarrow> 's option" where
  "for_loop i n body s =
     (if i < n then Option.bind (body i s) (for_loop (Suc i) n body) else Some s)"
  by pat_completeness auto
termination
  by (relation "measure (\<lambda>(i, n, body, s). n - i)") auto

function for_down :: "int \<Rightarrow> (int \<Rightarrow> 's \<Rightarrow> 's option) \<Rightarrow> 's \<Rightarrow> 's option" where
  "for_down page body s =
     (if 0 \<le> page then Option.bind (body page s) (for_down (page - 1) body) else Some s)"
  by pat_completeness auto
termination
  by (relation "measure (\<lambda>(page, body, s). nat (page + 1))") auto

section \<open>Image blit\<close>

text \<open>\<open>ssd1306_image_t\<close> of \<open>lib/image.h\<close>; \<open>data_img\<close> is the byte plane \<open>data\<close> points to.\<close>

record ssd1306_image_t =
  width_img :: u16
  height_img :: u16
  length_img :: nat
  data_img :: "u8 list"

text \<open>
  The body of the inner loop of \<open>ssd1306_draw_image\<close>. \<open>i + j * image->width\<close> is an
  \<open>int\<close> and can pass \<open>INT_MAX\<close> for an image of more than \<open>2 ^ 31\<close> pixels.
\<close>

definition draw_image_px ::
  "ssd1306_image_t \<Rightarrow> u16 \<Rightarrow> u16 \<Rightarrow> nat \<Rightarrow> nat \<Rightarrow> ssd1306_t \<Rightarrow> ssd1306_t option" where
  "draw_image_px img x y j i dev =
     (if i + j * unat (width_img img) > 2147483647 then None
      else
        let byte_index = (i + j * unat (width_img img)) div 8;
            bit_index = 7 - i mod 8
        in if byte_index < length (data_img img)
           then draw_pixel dev (word_of_int (uint x + int i)) (word_of_int (uint y + int j))
                  (drop_bit bit_index (data_img img ! byte_index) AND 1 \<noteq> 0)
           else None)"

definition ssd1306_draw_image ::
  "ssd1306_t \<Rightarrow> u16 \<Rightarrow> u16 \<Rightarrow> ssd1306_image_t \<Rightarrow> ssd1306_t option" where
  "ssd1306_draw_image dev x y img =
     for_loop 0 (unat (height_img img))
       (\<lambda>j. for_loop 0 (unat (width_img img)) (draw_image_px img x y j)) dev"

section \<open>Vertical scroll\<close>

text \<open>
  The bodies of the two page loops of \<open>ssd1306_scroll_row_vert\<close>, on the carry and the
  bytes of the buffer. \<open>idx\<close> is a \<open>uint16_t\<close>: the \<open>int\<close> value \<open>page * width + col\<close>
  (below \<open>2 ^ 30\<close>) is cut to 16 bits.
\<close>

definition scroll_down_page ::
  "nat \<Rightarrow> nat \<Rightarrow> nat \<Rightarrow> u8 \<times> u8 list \<Rightarrow> (u8 \<times> u8 list) option" where
  "scroll_down_page w col page st =
     (let carry = fst st; bs = snd st;
          idx = (page * w + col) mod 65536
      in if idx < length bs then
           let byte = bs ! idx;
               new_carry = (if byte AND 0x80 \<noteq> 0 then 0x01 else 0)
           in Some (new_carry, bs[idx := push_bit 1 byte OR carry])
         else None)"

definition scroll_up_page ::
  "nat \<Rightarrow> nat \<Rightarrow> int \<Rightarrow> u8 \<times> u8 list \<Rightarrow> (u8 \<times> u8 list) option" where
  "scroll_up_page w col page st =
     (let carry = fst st; bs = snd st;
          idx = nat ((page mod 65536 * int w + int col) mod 65536)
      in if idx < length bs then
           let byte = bs ! idx;
               new_carry = (if byte AND 0x01 \<noteq> 0 then 0x80 else 0)
           in Some (new_carry, bs[idx := drop_bit 1 byte OR carry])
         else None)"

text \<open>One turn of the column loop.\<close>

definition scroll_row_col :: "bool \<Rightarrow> nat \<Rightarrow> nat \<Rightarrow> nat \<Rightarrow> ssd1306_t \<Rightarrow> ssd1306_t option" where
  "scroll_row_col down w pgs col dev =
     (case buff dev of
        None \<Rightarrow> None
      | Some (c, bs) \<Rightarrow>
          if down then
            Option.bind (for_loop 0 pgs (scroll_down_page w col) (0, bs)) (\<lambda>st.
              let carry = fst st; bs1 = snd st
              in if col < length bs1
                 then Some (dev\<lparr>buff := Some (c, bs1[col := (bs1 ! col AND NOT 0x01) OR carry])\<rparr>)
                 else None)
          else
            Option.bind (for_down (int pgs - 1) (scroll_up_page w col) (0, bs)) (\<lambda>st.
              let carry = fst st; bs1 = snd st;
                  last_idx = nat (((int pgs - 1) * int w + int col) mod 65536)
              in if last_idx < length bs1
                 then Some (dev\<lparr>buff := Some (c, bs1[last_idx := (bs1 ! last_idx AND NOT 0x80) OR carry])\<rparr>)
                 else None))"

definition ssd1306_scroll_row_vert :: "ssd1306_t \<Rightarrow> bool \<Rightarrow> ssd1306_t option" where
  "ssd1306_scroll_row_vert dev down =
     (let w = unat (width dev);
          pgs = unat (height dev) div 8
      in for_loop 0 w (scroll_row_col down w pgs) dev)"

text \<open>\<open>n\<close> calls of \<open>ssd1306_scroll_row_vert\<close> in a row.\<close>

fun scroll_row_vert_n :: "nat \<Rightarrow> bool \<Rightarrow> ssd1306_t \<Rightarrow> ssd1306_t option" where
  "scroll_row_vert_n 0 down dev = Some dev"
| "scroll_row_vert_n (Suc n) down dev =
     Option.bind (ssd1306_scroll_row_vert dev down) (scroll_row_vert_n n down)"

section \<open>Reading the frame buffer\<close>

text \<open>
  The frame buffer as the data model describes it: the block holds \<open>width * pages\<close> bytes,
  \<open>buff_size\<close> says so, and the height is eight rows for each page.
\<close>

definition fb_inv :: "ssd1306_t \<Rightarrow> bool" where
  "fb_inv dev =
     (case buff dev of
        None \<Rightarrow> False
      | Some (c, bs) \<Rightarrow>
          length bs = unat (width dev) * unat (pages dev) \<and> buff_size dev = length bs \<and>
          unat (height dev) = 8 * unat (pages dev))"

text \<open>The bytes of the frame buffer, and the pixel at column \<open>x\<close>, row \<open>y\<close>.\<close>

definition fb_bytes :: "ssd1306_t \<Rightarrow> u8 list" where
  "fb_bytes dev = (case buff dev of None \<Rightarrow> [] | Some (c, bs) \<Rightarrow> bs)"

definition get_pixel :: "ssd1306_t \<Rightarrow> nat \<Rightarrow> nat \<Rightarrow> bool" where
  "get_pixel dev x y = bit (fb_bytes dev ! (x + unat (width dev) * (y div 8))) (y mod 8)"

text \<open>The number of set bits of a byte, and of the frame buffer.\<close>

definition popcount :: "u8 \<Rightarrow> nat" where
  "popcount b = length (filter (bit b) [0..<8])"

definition set_bit_count :: "ssd1306_t \<Rightarrow> nat" where
  "set_bit_count dev = sum_list (map popcount (fb_bytes dev))"

text \<open>\<open>fb_upd dev dev'\<close>: \<open>dev'\<close> is \<open>dev\<close> with other bytes in the frame buffer, and nothing else changed.\<close>

definition fb_upd :: "ssd1306_t \<Rightarrow> ssd1306_t \<Rightarrow> bool" where
  "fb_upd dev dev' =
     (case buff dev of
        None \<Rightarrow> False
      | Some (c, bs) \<Rightarrow>
          (case buff dev' of
             None \<Rightarrow> False
           | Some (c', bs') \<Rightarrow>
               c' = c \<and> length bs' = length bs \<and> dev' = dev\<lparr>buff := buff dev'\<rparr>))"

text \<open>The loops that may not end are run through their defining equations.\<close>

declare draw_line_x.simps [code] draw_line_y.simps [code]
declare draw_rect_rows.simps [code] draw_rect_cols.simps [code]

text \<open>The bit of image pixel \<open>(i, j)\<close>: row-major, eight pixels to a byte, the leftmost in bit 7.\<close>

definition image_bit :: "ssd1306_image_t \<Rightarrow> nat \<Rightarrow> nat \<Rightarrow> bool" where
  "image_bit img i j = bit (data_img img ! ((i + j * unat (width_img img)) div 8)) (7 - i mod 8)"

declare for_loop.simps [simp del] for_down.simps [simp del]

text \<open>
  What one call of the vertical scroll makes of a byte: shifted by one bit, with the bit
  that left the byte of the neighbouring page of the same column carried in. The
  neighbour is \<open>width\<close> bytes before (down) or after (up), around the end of the buffer.
\<close>

definition shl1 :: "u8 \<Rightarrow> bool \<Rightarrow> u8" where
  "shl1 b c = push_bit 1 b OR (if c then 0x01 else 0)"

definition shr1 :: "u8 \<Rightarrow> bool \<Rightarrow> u8" where
  "shr1 b c = drop_bit 1 b OR (if c then 0x80 else 0)"

definition scroll_down_byte :: "nat \<Rightarrow> u8 list \<Rightarrow> nat \<Rightarrow> u8" where
  "scroll_down_byte w bs i = shl1 (bs ! i) (bit (bs ! ((i + length bs - w) mod length bs)) 7)"

definition scroll_up_byte :: "nat \<Rightarrow> u8 list \<Rightarrow> nat \<Rightarrow> u8" where
  "scroll_up_byte w bs i = shr1 (bs ! i) (bit (bs ! ((i + w) mod length bs)) 0)"

text \<open>The same for either direction, and for the whole buffer.\<close>

definition scroll_byte :: "bool \<Rightarrow> nat \<Rightarrow> u8 list \<Rightarrow> nat \<Rightarrow> u8" where
  "scroll_byte down w bs i = (if down then scroll_down_byte w bs i else scroll_up_byte w bs i)"

definition scrolled :: "bool \<Rightarrow> nat \<Rightarrow> u8 list \<Rightarrow> u8 list" where
  "scrolled down w bs = map (scroll_byte down w bs) [0..<length bs]"

section \<open>Properties: the transport\<close>

lemma write_command_frame: "write_command dev c bus = bus @ [cmd_frame dev c]"
  by (simp add: write_command_def i2c_write_blocking_def cmd_frame_def)

lemma write_commands_frames: "write_commands dev cs bus = bus @ map (cmd_frame dev) cs"
  by (induction cs arbitrary: bus) (simp_all add: write_command_frame)

lemma scroll_horiz_frames:
  "ssd1306_scroll_horiz dev right start_page end_page speed bus =
     bus @ map (cmd_frame dev)
       [0x2E, if right then 0x26 else 0x27, 0x00, start_page AND 0x07, 0x00,
        end_page AND 0x07, 0x00, 0xFF, 0x2F]"
  by (simp add: ssd1306_scroll_horiz_def ssd1306_scroll_horiz_stop_def Let_def
      write_command_frame)

text \<open>
  Claim C6. Every call of \<open>ssd1306_scroll_horiz\<close> puts the stop opcode 0x2E on the
  transport first, then the start opcode (0x26 to the right, 0x27 to the left) with its
  parameter bytes; in two calls in a row, the stop opcode of the second call stands
  between the two start sequences.
\<close>

theorem scroll_horiz_stops_first:
  "ssd1306_scroll_horiz dev right sp ep speed bus =
     bus @ cmd_frame dev 0x2E # cmd_frame dev (if right then 0x26 else 0x27) #
       map (cmd_frame dev) [0x00, sp AND 0x07, 0x00, ep AND 0x07, 0x00, 0xFF, 0x2F]
   \<and> ssd1306_scroll_horiz dev right' sp' ep' speed'
       (ssd1306_scroll_horiz dev right sp ep speed bus) =
     bus @ cmd_frame dev 0x2E # cmd_frame dev (if right then 0x26 else 0x27) #
       map (cmd_frame dev) [0x00, sp AND 0x07, 0x00, ep AND 0x07, 0x00, 0xFF, 0x2F]
     @ cmd_frame dev 0x2E # cmd_frame dev (if right' then 0x26 else 0x27) #
       map (cmd_frame dev) [0x00, sp' AND 0x07, 0x00, ep' AND 0x07, 0x00, 0xFF, 0x2F]"
  by (simp add: scroll_horiz_frames)

text \<open>
  Claim C10. The bytes \<open>ssd1306_scroll_horiz\<close> sends do not depend on \<open>speed\<close>: the
  interval byte, the fourth command after the stop opcode, is \<open>speed & 0x00\<close>, which is 0.
\<close>

theorem scroll_horiz_ignores_speed:
  "ssd1306_scroll_horiz dev right sp ep speed1 bus =
     ssd1306_scroll_horiz dev right sp ep speed2 bus
   \<and> ssd1306_scroll_horiz dev right sp ep speed1 bus ! (length bus + 4) = cmd_frame dev 0x00"
  by (simp add: scroll_horiz_frames nth_append)

section \<open>Properties: initialisation\<close>

text \<open>
  Claim C7, as the code has it. When the allocation fails, \<open>ssd1306_init\<close> returns false
  and sends nothing; the device context is not left as it was: the geometry, the address,
  the bus and the supply flag have been stored, and the buffer pointer is \<open>NULL\<close>.
\<close>

theorem init_alloc_fail:
  "ssd1306_init dev w h addr inst ext Alloc_fail bus =
     (False,
      dev\<lparr>width := w, height := h, pages := word_of_int (uint h div 8), i2c_addr := addr,
          i2c_inst := inst, external_vcc := ext,
          buff_size := unat w * unat (word_of_int (uint h div 8) :: u16), buff := None\<rparr>,
      bus)"
  by (simp add: ssd1306_init_def Let_def)

text \<open>
  The claim as stated fails: a zeroed context is changed by a failed \<open>ssd1306_init\<close>.
\<close>

theorem init_alloc_fail_changes_context:
  "fst (snd (ssd1306_init
      \<lparr>width = 0, height = 0, pages = 0, i2c_addr = 0, i2c_inst = 0,
        external_vcc = False, buff = None, buff_size = 0\<rparr>
      128 64 0x3C 0 False Alloc_fail [])) \<noteq>
    \<lparr>width = 0, height = 0, pages = 0, i2c_addr = 0, i2c_inst = 0,
      external_vcc = False, buff = None, buff_size = 0\<rparr>"
  by (simp add: ssd1306_init_def Let_def)


section \<open>Properties: pixels\<close>


lemma unat_drop3: "unat (drop_bit 3 (y :: u16)) = unat y div 8"
  by (simp add: drop_bit_eq_div unat_div)

lemma unat_and7: "unat ((y :: u16) AND 7) = unat y mod 8"
proof -
  have "(y AND 7) = take_bit 3 y"
    by (simp add: take_bit_eq_mask mask_eq_exp_minus_1)
  then show ?thesis by (simp add: take_bit_eq_mod unat_mod)
qed

lemma bit_or_mask: "k < 8 \<Longrightarrow> bit ((b :: u8) OR 2 ^ k) j = (bit b j \<or> j = k)"
  by (auto simp add: bit_simps)

lemma bit_and_not_mask: "k < 8 \<Longrightarrow> bit ((b :: u8) AND NOT (2 ^ k)) j = (bit b j \<and> j \<noteq> k)"
  by (auto simp add: bit_simps dest: bit_imp_le_length)

lemma fb_index_less:
  assumes "x < w" "y div 8 < p"
  shows "x + w * (y div 8) < w * (p :: nat)"
proof -
  have "x + w * (y div 8) < w + w * (y div 8)" using assms by simp
  also have "\<dots> = w * Suc (y div 8)" by simp
  also have "\<dots> \<le> w * p" using assms by (intro mult_le_mono2) simp
  finally show ?thesis .
qed

lemma draw_pixel_fb:
  assumes "fb_inv dev" "x < width dev" "y < height dev" "buff dev = Some (c, bs)"
  shows "unat x + unat (width dev) * (unat y div 8) < length bs"
    and "draw_pixel dev x y color =
      Some (dev\<lparr>buff := Some (c, bs[unat x + unat (width dev) * (unat y div 8) :=
        (if color then bs ! (unat x + unat (width dev) * (unat y div 8)) OR push_bit (unat y mod 8) 1
         else bs ! (unat x + unat (width dev) * (unat y div 8)) AND NOT (push_bit (unat y mod 8) 1))])\<rparr>)"
proof -
  from assms have len: "length bs = unat (width dev) * unat (pages dev)"
    and h: "unat (height dev) = 8 * unat (pages dev)"
    by (simp_all add: fb_inv_def)
  have "unat x < unat (width dev)" "unat y < unat (height dev)"
    using assms by (simp_all add: word_less_nat_alt)
  then show idx: "unat x + unat (width dev) * (unat y div 8) < length bs"
    unfolding len using h by (intro fb_index_less) auto
  then show "draw_pixel dev x y color =
      Some (dev\<lparr>buff := Some (c, bs[unat x + unat (width dev) * (unat y div 8) :=
        (if color then bs ! (unat x + unat (width dev) * (unat y div 8)) OR push_bit (unat y mod 8) 1
         else bs ! (unat x + unat (width dev) * (unat y div 8)) AND NOT (push_bit (unat y mod 8) 1))])\<rparr>)"
    using assms by (simp add: draw_pixel_def unat_drop3 unat_and7 Let_def)
qed

lemma draw_pixel_outside:
  "\<not> (x < width dev \<and> y < height dev) \<Longrightarrow> draw_pixel dev x y color = Some dev"
  by (auto simp add: draw_pixel_def)


text \<open>
  Claim C2. Outside the display (\<open>x \<ge> width\<close> or \<open>y \<ge> height\<close>) \<open>draw_pixel\<close> returns
  the device as it was. Inside the display of a device that satisfies the frame buffer
  invariant, it writes one byte, at index \<open>x + width * (y div 8)\<close>, and in that byte only
  bit \<open>y mod 8\<close>, which becomes the colour; every other bit of the buffer keeps its value.
  \<open>ssd1306_draw_pixel\<close> and \<open>ssd1306_clear_pixel\<close> are \<open>draw_pixel\<close> with the colour 1 and 0.
\<close>

theorem draw_pixel_one_bit:
  "(\<not> (x < width dev \<and> y < height dev) \<longrightarrow> draw_pixel dev x y color = Some dev) \<and>
   (fb_inv dev \<and> x < width dev \<and> y < height dev \<longrightarrow>
      (let idx = unat x + unat (width dev) * (unat y div 8) in
       idx < length (fb_bytes dev) \<and>
       (\<exists>bs'. draw_pixel dev x y color = Some (dev\<lparr>buff := Some (fst (the (buff dev)), bs')\<rparr>) \<and>
          length bs' = length (fb_bytes dev) \<and>
          (\<forall>i < length bs'. \<forall>k. bit (bs' ! i) k =
             (if i = idx \<and> k = unat y mod 8 then color else bit (fb_bytes dev ! i) k))))) \<and>
   ssd1306_draw_pixel dev x y = draw_pixel dev x y True \<and>
   ssd1306_clear_pixel dev x y = draw_pixel dev x y False"
proof (intro conjI impI)
  assume "\<not> (x < width dev \<and> y < height dev)"
  then show "draw_pixel dev x y color = Some dev" by (rule draw_pixel_outside)
next
  assume a: "fb_inv dev \<and> x < width dev \<and> y < height dev"
  then obtain c bs where b: "buff dev = Some (c, bs)"
    by (auto simp add: fb_inv_def split: option.splits)
  let ?idx = "unat x + unat (width dev) * (unat y div 8)"
  let ?v = "if color then bs ! ?idx OR push_bit (unat y mod 8) 1
            else bs ! ?idx AND NOT (push_bit (unat y mod 8) 1)"
  have idx: "?idx < length bs"
    and dp: "draw_pixel dev x y color = Some (dev\<lparr>buff := Some (c, bs[?idx := ?v])\<rparr>)"
    using draw_pixel_fb(1) [of dev x y c bs] draw_pixel_fb(2) [of dev x y c bs color] a b
    by simp_all
  have bits: "bit (bs[?idx := ?v] ! i) k =
      (if i = ?idx \<and> k = unat y mod 8 then color else bit (bs ! i) k)"
    if "i < length bs" for i k
    using that idx by (simp add: nth_list_update bit_or_mask bit_and_not_mask)
  show "let idx = ?idx in
       idx < length (fb_bytes dev) \<and>
       (\<exists>bs'. draw_pixel dev x y color = Some (dev\<lparr>buff := Some (fst (the (buff dev)), bs')\<rparr>) \<and>
          length bs' = length (fb_bytes dev) \<and>
          (\<forall>i < length bs'. \<forall>k. bit (bs' ! i) k =
             (if i = idx \<and> k = unat y mod 8 then color else bit (fb_bytes dev ! i) k)))"
    unfolding Let_def
  proof (intro conjI exI [of _ "bs[?idx := ?v]"])
    show "?idx < length (fb_bytes dev)" using idx b by (simp add: fb_bytes_def)
    show "draw_pixel dev x y color = Some (dev\<lparr>buff := Some (fst (the (buff dev)), bs[?idx := ?v])\<rparr>)"
      using dp b by simp
    show "length (bs[?idx := ?v]) = length (fb_bytes dev)" using b by (simp add: fb_bytes_def)
    show "\<forall>i<length (bs[?idx := ?v]). \<forall>k. bit (bs[?idx := ?v] ! i) k =
        (if i = ?idx \<and> k = unat y mod 8 then color else bit (fb_bytes dev ! i) k)"
      using bits b by (simp add: fb_bytes_def)
  qed
qed (simp_all add: ssd1306_draw_pixel_def ssd1306_clear_pixel_def)

theorem draw_pixel_one_bit_witness:
  "fb_inv \<lparr>width = 2, height = 8, pages = 1, i2c_addr = 0x3C, i2c_inst = 0,
      external_vcc = False, buff = Some (0x40, [0, 0]), buff_size = 2\<rparr> \<and>
   draw_pixel \<lparr>width = 2, height = 8, pages = 1, i2c_addr = 0x3C, i2c_inst = 0,
      external_vcc = False, buff = Some (0x40, [0, 0]), buff_size = 2\<rparr> 1 3 True =
     Some \<lparr>width = 2, height = 8, pages = 1, i2c_addr = 0x3C, i2c_inst = 0,
      external_vcc = False, buff = Some (0x40, [0, 8]), buff_size = 2\<rparr> \<and>
   draw_pixel \<lparr>width = 2, height = 8, pages = 1, i2c_addr = 0x3C, i2c_inst = 0,
      external_vcc = False, buff = Some (0x40, [0, 0]), buff_size = 2\<rparr> 2 3 True =
     Some \<lparr>width = 2, height = 8, pages = 1, i2c_addr = 0x3C, i2c_inst = 0,
      external_vcc = False, buff = Some (0x40, [0, 0]), buff_size = 2\<rparr>"
proof -
  let ?d = "\<lparr>width = 2, height = 8, pages = 1, i2c_addr = 0x3C, i2c_inst = 0,
      external_vcc = False, buff = Some (0x40, [0, 0 :: u8]), buff_size = 2\<rparr>"
  have inv: "fb_inv ?d" by (simp add: fb_inv_def)
  have out: "draw_pixel ?d 2 3 True = Some ?d"
    using draw_pixel_one_bit [of 2 ?d 3 True] by simp
  from draw_pixel_one_bit [of 1 ?d 3 True] inv
  obtain bs' where r: "draw_pixel ?d 1 3 True = Some (?d\<lparr>buff := Some (0x40, bs')\<rparr>)"
    and len: "length bs' = 2"
    and bits: "\<forall>i<length bs'. \<forall>k. bit (bs' ! i) k = (if i = 1 \<and> k = 3 then True else bit ([0, 0 :: u8] ! i) k)"
    by (auto simp add: Let_def fb_bytes_def)
  have "draw_pixel ?d 1 3 True = Some (?d\<lparr>buff := Some (0x40, [0, 8])\<rparr>)"
    by (simp add: draw_pixel_def)
  with inv out show ?thesis by simp
qed


section \<open>Properties: flushing the buffer\<close>


lemma malloc_block:
  "malloc (Alloc_ok f) (Suc n) = Some m \<Longrightarrow> hd m = f 0 \<and> tl m = map (f \<circ> Suc) [0..<n]"
proof -
  assume "malloc (Alloc_ok f) (Suc n) = Some m"
  then have m: "m = map f [0..<Suc n]" by simp
  have "[0..<Suc n] = 0 # map Suc [0..<n]"
    by (simp add: upt_conv_Cons map_Suc_upt del: upt_Suc)
  then have "map f [0..<Suc n] = f 0 # map (f \<circ> Suc) [0..<n]"
    by (simp del: upt_Suc)
  with m show ?thesis by (simp del: upt_Suc)
qed

lemma init_ok:
  "ssd1306_init dev w h addr inst ext (Alloc_ok f) bus =
     (let d = dev\<lparr>width := w, height := h, pages := word_of_int (uint h div 8),
                  i2c_addr := addr, i2c_inst := inst, external_vcc := ext,
                  buff_size := unat w * unat (word_of_int (uint h div 8) :: u16),
                  buff := Some (f 0, map (f \<circ> Suc)
                    [0..<unat w * unat (word_of_int (uint h div 8) :: u16)])\<rparr>
      in (True, d, bus @ map (cmd_frame d) (init_commands d @ [0x2E])))"
proof -
  obtain m where m: "malloc (Alloc_ok f) (Suc (unat w * unat (word_of_int (uint h div 8) :: u16))) = Some m"
    by simp
  from malloc_block [OF m] m show ?thesis
    by (simp add: ssd1306_init_def Let_def run_init_commands_def write_commands_frames
        ssd1306_scroll_horiz_stop_def write_command_frame del: malloc.simps)
qed

lemma clear_show:
  assumes "buff dev = Some (c, bs)" "buff_size dev = length bs"
  shows "Option.bind (ssd1306_clear dev) (\<lambda>d. ssd1306_show d bus) =
     Some (dev\<lparr>buff := Some (0x40, replicate (length bs) 0)\<rparr>,
           bus @ map (cmd_frame dev)
             [0x21, 0x00, word_of_int (uint (width dev) - 1),
              0x22, 0x00, word_of_int (uint (pages dev) - 1)]
           @ [(i2c_inst dev, i2c_addr dev, 0x40 # replicate (length bs) 0)])"
  using assms
  by (simp add: ssd1306_clear_def ssd1306_show_def Let_def write_commands_frames
      i2c_write_blocking_def cmd_frame_def SET_COL_ADDR_def SET_PAGE_ADDR_def)

text \<open>
  Claim C1. After \<open>ssd1306_init\<close> for 128 by 64 at address 0x3C has succeeded, \<open>ssd1306_clear\<close>
  and \<open>ssd1306_show\<close> add to the transport exactly six command frames, with the command
  bytes 0x21, 0, 127 (columns 0 to 127) and 0x22, 0, 7 (pages 0 to 7), and then one write
  of the framing byte 0x40 followed by 1024 data bytes, all of them zero.
\<close>

theorem init_clear_show_128x64:
  "(let r = ssd1306_init dev 128 64 0x3C inst ext (Alloc_ok f) bus;
        d = fst (snd r); b = snd (snd r)
    in fst r \<and>
       map_option snd (Option.bind (ssd1306_clear d) (\<lambda>d'. ssd1306_show d' b)) =
         Some (b @ [(inst, 0x3C, [0x00, 0x21]), (inst, 0x3C, [0x00, 0x00]),
                    (inst, 0x3C, [0x00, 0x7F]), (inst, 0x3C, [0x00, 0x22]),
                    (inst, 0x3C, [0x00, 0x00]), (inst, 0x3C, [0x00, 0x07]),
                    (inst, 0x3C, 0x40 # replicate 1024 0)]))"
proof -
  let ?d = "dev\<lparr>width := 128, height := 64, pages := 8,
                  i2c_addr := 0x3C, i2c_inst := inst, external_vcc := ext,
                  buff_size := 1024,
                  buff := Some (f 0, map (f \<circ> Suc) [0..<1024])\<rparr>"
  have i: "ssd1306_init dev 128 64 0x3C inst ext (Alloc_ok f) bus =
      (True, ?d, bus @ map (cmd_frame ?d) (init_commands ?d @ [0x2E]))"
    unfolding init_ok Let_def by (simp del: upt.simps upt_rec_numeral)
  have "buff ?d = Some (f 0, map (f \<circ> Suc) [0..<1024])"
    and "buff_size ?d = length (map (f \<circ> Suc) [0..<1024])"
    by simp_all
  from clear_show [OF this] show ?thesis
    unfolding i Let_def by (simp add: cmd_frame_def del: upt.simps upt_rec_numeral)
qed

section \<open>Properties: the pixel a call of \<open>draw_pixel\<close> changes\<close>

lemma fb_upd_refl: "fb_inv dev \<Longrightarrow> fb_upd dev dev"
  by (auto simp add: fb_inv_def fb_upd_def split: option.splits)

lemma fb_upd_trans: "fb_upd a b \<Longrightarrow> fb_upd b c \<Longrightarrow> fb_upd a c"
  by (auto simp add: fb_upd_def split: option.splits)

lemma fb_upd_geom:
  "fb_upd dev dev' \<Longrightarrow> width dev' = width dev \<and> height dev' = height dev \<and> pages dev' = pages dev
     \<and> buff_size dev' = buff_size dev \<and> length (fb_bytes dev') = length (fb_bytes dev)"
  by (auto simp add: fb_upd_def fb_bytes_def split: option.splits)

lemma fb_upd_inv: "fb_inv dev \<Longrightarrow> fb_upd dev dev' \<Longrightarrow> fb_inv dev'"
  using fb_upd_geom [of dev dev']
  by (auto simp add: fb_inv_def fb_upd_def fb_bytes_def split: option.splits)

lemma idx_inj:
  assumes "px < (w :: nat)" "x < w"
  shows "px + w * a = x + w * b \<longleftrightarrow> px = x \<and> a = b"
proof
  assume e: "px + w * a = x + w * b"
  from e have "(px + w * a) mod w = (x + w * b) mod w" by simp
  with assms have px: "px = x" by simp
  from e have "(px + w * a) div w = (x + w * b) div w" by simp
  with assms have "a = b" by simp
  with px show "px = x \<and> a = b" ..
qed simp

lemma row_split: "(py div 8 = y div 8 \<and> py mod 8 = y mod 8) \<longleftrightarrow> py = (y :: nat)"
  by (metis div_mult_mod_eq)

lemma draw_pixel_px:
  assumes inv: "fb_inv dev"
  shows "\<exists>dev'. draw_pixel dev x y color = Some dev' \<and> fb_upd dev dev' \<and>
     (\<forall>px py. px < unat (width dev) \<longrightarrow> py < unat (height dev) \<longrightarrow>
        get_pixel dev' px py =
          (if px = unat x \<and> py = unat y then color else get_pixel dev px py))"
proof (cases "x < width dev \<and> y < height dev")
  case False
  then have "draw_pixel dev x y color = Some dev" by (rule draw_pixel_outside)
  moreover have "\<not> (px = unat x \<and> py = unat y)"
    if "px < unat (width dev)" "py < unat (height dev)" for px py
    using that False by (auto simp add: word_less_nat_alt)
  ultimately show ?thesis using fb_upd_refl [OF inv] by auto
next
  case True
  from inv obtain c bs where b: "buff dev = Some (c, bs)"
    by (auto simp add: fb_inv_def split: option.splits)
  from inv b have len: "length bs = unat (width dev) * unat (pages dev)"
    and h: "unat (height dev) = 8 * unat (pages dev)"
    by (simp_all add: fb_inv_def)
  let ?w = "unat (width dev)"
  let ?idx = "unat x + ?w * (unat y div 8)"
  let ?v = "if color then bs ! ?idx OR push_bit (unat y mod 8) 1
            else bs ! ?idx AND NOT (push_bit (unat y mod 8) 1)"
  let ?dev' = "dev\<lparr>buff := Some (c, bs[?idx := ?v])\<rparr>"
  have dp: "draw_pixel dev x y color = Some ?dev'"
    using draw_pixel_fb(2) [OF inv _ _ b, of x y color] True by simp
  have xw: "unat x < ?w" using True by (simp add: word_less_nat_alt)
  have upd: "fb_upd dev ?dev'" using b by (simp add: fb_upd_def)
  have px: "get_pixel ?dev' px py =
      (if px = unat x \<and> py = unat y then color else get_pixel dev px py)"
    if p: "px < ?w" "py < unat (height dev)" for px py
  proof -
    have i: "px + ?w * (py div 8) < length bs"
      unfolding len using p h by (intro fb_index_less) auto
    have e: "(px + ?w * (py div 8) = ?idx \<and> py mod 8 = unat y mod 8) \<longleftrightarrow>
        (px = unat x \<and> py = unat y)"
      using idx_inj [OF p(1) xw] row_split [of py "unat y"] by blast
    show ?thesis
    proof (cases "px + ?w * (py div 8) = ?idx")
      case True
      with e i b show ?thesis
        by (auto simp add: get_pixel_def fb_bytes_def bit_or_mask bit_and_not_mask)
    next
      case False
      with e i b show ?thesis
        by (auto simp add: get_pixel_def fb_bytes_def)
    qed
  qed
  from dp upd px show ?thesis by blast
qed

section \<open>Properties: rectangle outline\<close>

lemma sint16_of_int: "- 32768 \<le> k \<Longrightarrow> k < 32768 \<Longrightarrow> sint (word_of_int k :: 16 word) = k"
  by (simp add: sint_sbintrunc' signed_take_bit_int_eq_self)

lemma uint16_of_int: "0 \<le> k \<Longrightarrow> k < 65536 \<Longrightarrow> uint (word_of_int k :: 16 word) = k"
  by (simp add: uint_word_of_int_eq take_bit_int_eq_self)

lemma sint16_range: "- 32768 \<le> sint (w :: 16 word) \<and> sint w < 32768"
  using sint_ge [of w] sint_lt [of w] by simp

lemma sint16_succ:
  assumes "sint (i :: 16 word) < bound" "bound \<le> 32767"
  shows "sint (word_of_int (sint i + 1) :: 16 word) = sint i + 1"
  using assms sint16_range [of i] by (intro sint16_of_int) auto

lemma sint16_run_step:
  assumes "sint (i :: 16 word) < bound" "bound \<le> 32767"
  shows "(\<exists>k :: 16 word. sint i \<le> sint k \<and> sint k < bound \<and> px = unat k) \<longleftrightarrow>
     (px = unat i \<or>
      (\<exists>k :: 16 word. sint (word_of_int (sint i + 1) :: 16 word) \<le> sint k \<and> sint k < bound \<and>
         px = unat k))"
    (is "?L \<longleftrightarrow> ?R")
proof
  note s = sint16_succ [OF assms]
  assume ?L
  then obtain k :: "16 word" where k: "sint i \<le> sint k" "sint k < bound" "px = unat k"
    by blast
  show ?R
  proof (cases "k = i")
    case True
    with k show ?thesis by simp
  next
    case False
    then have "sint k \<noteq> sint i" by (auto dest: signed_word_eqI)
    with k(1) have "sint i + 1 \<le> sint k" by simp
    with k(2,3) show ?thesis unfolding s by blast
  qed
next
  note s = sint16_succ [OF assms]
  assume ?R
  then show ?L
  proof
    assume "px = unat i"
    with assms(1) show ?L by auto
  next
    assume "\<exists>k :: 16 word. sint (word_of_int (sint i + 1) :: 16 word) \<le> sint k \<and> sint k < bound \<and>
         px = unat k"
    then obtain k :: "16 word" where "sint i + 1 \<le> sint k" "sint k < bound" "px = unat k"
      unfolding s by blast
    then have "sint i \<le> sint k \<and> sint k < bound \<and> px = unat k" by simp
    then show ?L ..
  qed
qed

lemma draw_pixel_on:
  assumes inv: "fb_inv dev"
  obtains dev' where "draw_pixel dev x y True = Some dev'" "fb_upd dev dev'" "fb_inv dev'"
    "width dev' = width dev" "height dev' = height dev"
    "\<And>px py. px < unat (width dev) \<Longrightarrow> py < unat (height dev) \<Longrightarrow>
       get_pixel dev' px py = ((px = unat x \<and> py = unat y) \<or> get_pixel dev px py)"
proof -
  from draw_pixel_px [OF inv, of x y True]
  obtain dev' where d: "draw_pixel dev x y True = Some dev'" and u: "fb_upd dev dev'"
    and p: "\<forall>px py. px < unat (width dev) \<longrightarrow> py < unat (height dev) \<longrightarrow>
        get_pixel dev' px py = (if px = unat x \<and> py = unat y then True else get_pixel dev px py)"
    by blast
  have "get_pixel dev' px py = ((px = unat x \<and> py = unat y) \<or> get_pixel dev px py)"
    if "px < unat (width dev)" "py < unat (height dev)" for px py
    using p that by auto
  with d u fb_upd_inv [OF inv u] fb_upd_geom [OF u] that show thesis by blast
qed

lemma draw_rect_rows_px:
  assumes "fb_inv dev" "bound \<le> 32767"
  shows "\<exists>dev'. draw_rect_rows dev i bound ya yb = Some dev' \<and> fb_upd dev dev' \<and>
     (\<forall>px py. px < unat (width dev) \<longrightarrow> py < unat (height dev) \<longrightarrow>
        get_pixel dev' px py =
          (get_pixel dev px py \<or>
           ((\<exists>k :: u16. sint i \<le> sint k \<and> sint k < bound \<and> px = unat k) \<and>
            (py = unat ya \<or> py = unat yb))))"
  using assms
proof (induction "nat (bound - sint i)" arbitrary: dev i)
  case 0
  then have "\<not> sint i < bound" by simp
  then show ?case
    using fb_upd_refl [OF "0.prems"(1)]
    by (subst draw_rect_rows.simps) auto
next
  case (Suc n)
  then have lt: "sint i < bound" by simp
  let ?i' = "word_of_int (sint i + 1) :: 16 word"
  have s: "sint ?i' = sint i + 1" using lt Suc.prems(2) by (rule sint16_succ)
  from draw_pixel_on [OF Suc.prems(1), of i ya]
  obtain d1 where d1: "draw_pixel dev i ya True = Some d1" and u1: "fb_upd dev d1"
    and inv1: "fb_inv d1" and g1: "width d1 = width dev" "height d1 = height dev"
    and p1: "\<And>px py. px < unat (width dev) \<Longrightarrow> py < unat (height dev) \<Longrightarrow>
        get_pixel d1 px py = ((px = unat i \<and> py = unat ya) \<or> get_pixel dev px py)"
    by blast
  from draw_pixel_on [OF inv1, of i yb]
  obtain d2 where d2: "draw_pixel d1 i yb True = Some d2" and u2: "fb_upd d1 d2"
    and inv2: "fb_inv d2" and g2: "width d2 = width dev" "height d2 = height dev"
    and p2: "\<And>px py. px < unat (width dev) \<Longrightarrow> py < unat (height dev) \<Longrightarrow>
        get_pixel d2 px py = ((px = unat i \<and> py = unat yb) \<or> get_pixel d1 px py)"
    unfolding g1 by blast
  have "n = nat (bound - sint ?i')" using Suc.hyps(2) s by simp
  from Suc.hyps(1) [OF this inv2 Suc.prems(2)]
  obtain dev' where r: "draw_rect_rows d2 ?i' bound ya yb = Some dev'" and u3: "fb_upd d2 dev'"
    and p3: "\<And>px py. px < unat (width dev) \<Longrightarrow> py < unat (height dev) \<Longrightarrow>
        get_pixel dev' px py =
          (get_pixel d2 px py \<or>
           ((\<exists>k :: u16. sint ?i' \<le> sint k \<and> sint k < bound \<and> px = unat k) \<and>
            (py = unat ya \<or> py = unat yb)))"
    unfolding g2 by blast
  have res: "draw_rect_rows dev i bound ya yb = Some dev'"
    using lt d1 d2 r by (subst draw_rect_rows.simps) simp
  have upd: "fb_upd dev dev'" using u1 u2 u3 by (blast intro: fb_upd_trans)
  have "get_pixel dev' px py =
          (get_pixel dev px py \<or>
           ((\<exists>k :: u16. sint i \<le> sint k \<and> sint k < bound \<and> px = unat k) \<and>
            (py = unat ya \<or> py = unat yb)))"
    if p: "px < unat (width dev)" "py < unat (height dev)" for px py
    unfolding p3 [OF p] p2 [OF p] p1 [OF p] sint16_run_step [OF lt Suc.prems(2), of px]
    by blast
  with res upd show ?case by blast
qed

lemma draw_rect_cols_px:
  assumes "fb_inv dev" "bound \<le> 32767"
  shows "\<exists>dev'. draw_rect_cols dev i bound xa xb = Some dev' \<and> fb_upd dev dev' \<and>
     (\<forall>px py. px < unat (width dev) \<longrightarrow> py < unat (height dev) \<longrightarrow>
        get_pixel dev' px py =
          (get_pixel dev px py \<or>
           ((px = unat xa \<or> px = unat xb) \<and>
            (\<exists>k :: u16. sint i \<le> sint k \<and> sint k < bound \<and> py = unat k))))"
  using assms
proof (induction "nat (bound - sint i)" arbitrary: dev i)
  case 0
  then have "\<not> sint i < bound" by simp
  then show ?case
    using fb_upd_refl [OF "0.prems"(1)]
    by (subst draw_rect_cols.simps) auto
next
  case (Suc n)
  then have lt: "sint i < bound" by simp
  let ?i' = "word_of_int (sint i + 1) :: 16 word"
  have s: "sint ?i' = sint i + 1" using lt Suc.prems(2) by (rule sint16_succ)
  from draw_pixel_on [OF Suc.prems(1), of xa i]
  obtain d1 where d1: "draw_pixel dev xa i True = Some d1" and u1: "fb_upd dev d1"
    and inv1: "fb_inv d1" and g1: "width d1 = width dev" "height d1 = height dev"
    and p1: "\<And>px py. px < unat (width dev) \<Longrightarrow> py < unat (height dev) \<Longrightarrow>
        get_pixel d1 px py = ((px = unat xa \<and> py = unat i) \<or> get_pixel dev px py)"
    by blast
  from draw_pixel_on [OF inv1, of xb i]
  obtain d2 where d2: "draw_pixel d1 xb i True = Some d2" and u2: "fb_upd d1 d2"
    and inv2: "fb_inv d2" and g2: "width d2 = width dev" "height d2 = height dev"
    and p2: "\<And>px py. px < unat (width dev) \<Longrightarrow> py < unat (height dev) \<Longrightarrow>
        get_pixel d2 px py = ((px = unat xb \<and> py = unat i) \<or> get_pixel d1 px py)"
    unfolding g1 by blast
  have "n = nat (bound - sint ?i')" using Suc.hyps(2) s by simp
  from Suc.hyps(1) [OF this inv2 Suc.prems(2)]
  obtain dev' where r: "draw_rect_cols d2 ?i' bound xa xb = Some dev'" and u3: "fb_upd d2 dev'"
    and p3: "\<And>px py. px < unat (width dev) \<Longrightarrow> py < unat (height dev) \<Longrightarrow>
        get_pixel dev' px py =
          (get_pixel d2 px py \<or>
           ((px = unat xa \<or> px = unat xb) \<and>
            (\<exists>k :: u16. sint ?i' \<le> sint k \<and> sint k < bound \<and> py = unat k)))"
    unfolding g2 by blast
  have res: "draw_rect_cols dev i bound xa xb = Some dev'"
    using lt d1 d2 r by (subst draw_rect_cols.simps) simp
  have upd: "fb_upd dev dev'" using u1 u2 u3 by (blast intro: fb_upd_trans)
  have "get_pixel dev' px py =
          (get_pixel dev px py \<or>
           ((px = unat xa \<or> px = unat xb) \<and>
            (\<exists>k :: u16. sint i \<le> sint k \<and> sint k < bound \<and> py = unat k)))"
    if p: "px < unat (width dev)" "py < unat (height dev)" for px py
    unfolding p3 [OF p] p2 [OF p] p1 [OF p] sint16_run_step [OF lt Suc.prems(2), of py]
    by blast
  with res upd show ?case by blast
qed


lemma draw_rect_rows_none: "bound \<le> sint i \<Longrightarrow> draw_rect_rows dev i bound ya yb = Some dev"
  by (subst draw_rect_rows.simps) simp

lemma draw_rect_cols_none: "bound \<le> sint i \<Longrightarrow> draw_rect_cols dev i bound xa xb = Some dev"
  by (subst draw_rect_cols.simps) simp

text \<open>
  Claim C8, as the code has it. On a device that satisfies the frame buffer invariant,
  \<open>ssd1306_draw_rect\<close> with height 0 lights, for the columns \<open>x\<close> to \<open>x + w - 1\<close> (the
  16-bit values \<open>k\<close> with \<open>x \<le> k < x + w\<close> as signed numbers), the pixels of two rows,
  \<open>y\<close> and \<open>y - 1\<close>, as far as they are on the display, and changes no other pixel; with
  width 0 it lights the rows \<open>y\<close> to \<open>y + h - 1\<close> of the two columns \<open>x\<close> and \<open>x - 1\<close>.
  The bound \<open>x + w \<le> 32767\<close> (or \<open>y + h \<le> 32767\<close>) is what lets the \<open>int16_t\<close> counter
  reach the end of its loop.
\<close>

theorem draw_rect_degenerate:
  "(fb_inv dev \<and> sint x + sint w \<le> 32767 \<longrightarrow>
      (\<exists>dev'. ssd1306_draw_rect dev x y w 0 = Some dev' \<and> fb_upd dev dev' \<and>
         (\<forall>px < unat (width dev). \<forall>py < unat (height dev).
            get_pixel dev' px py =
              (get_pixel dev px py \<or>
               ((\<exists>k :: u16. sint x \<le> sint k \<and> sint k < sint x + sint w \<and> px = unat k) \<and>
                (py = unat y \<or> py = unat (y - 1))))))) \<and>
   (fb_inv dev \<and> sint y + sint h \<le> 32767 \<longrightarrow>
      (\<exists>dev'. ssd1306_draw_rect dev x y 0 h = Some dev' \<and> fb_upd dev dev' \<and>
         (\<forall>px < unat (width dev). \<forall>py < unat (height dev).
            get_pixel dev' px py =
              (get_pixel dev px py \<or>
               ((px = unat x \<or> px = unat (x - 1)) \<and>
                (\<exists>k :: u16. sint y \<le> sint k \<and> sint k < sint y + sint h \<and> py = unat k))))))"
proof (intro conjI impI)
  assume a: "fb_inv dev \<and> sint x + sint w \<le> 32767"
  from draw_rect_rows_px [of dev "sint x + sint w" x y "y - 1"] a
  obtain dev' where r: "draw_rect_rows dev x (sint x + sint w) y (y - 1) = Some dev'"
    and u: "fb_upd dev dev'"
    and p: "\<forall>px py. px < unat (width dev) \<longrightarrow> py < unat (height dev) \<longrightarrow>
        get_pixel dev' px py =
          (get_pixel dev px py \<or>
           ((\<exists>k :: u16. sint x \<le> sint k \<and> sint k < sint x + sint w \<and> px = unat k) \<and>
            (py = unat y \<or> py = unat (y - 1))))"
    by blast
  have "ssd1306_draw_rect dev x y w 0 = Some dev'"
    using r by (simp add: ssd1306_draw_rect_def draw_rect_cols_none)
  with u p show "\<exists>dev'. ssd1306_draw_rect dev x y w 0 = Some dev' \<and> fb_upd dev dev' \<and>
         (\<forall>px < unat (width dev). \<forall>py < unat (height dev).
            get_pixel dev' px py =
              (get_pixel dev px py \<or>
               ((\<exists>k :: u16. sint x \<le> sint k \<and> sint k < sint x + sint w \<and> px = unat k) \<and>
                (py = unat y \<or> py = unat (y - 1)))))"
    by blast
next
  assume a: "fb_inv dev \<and> sint y + sint h \<le> 32767"
  from draw_rect_cols_px [of dev "sint y + sint h" y x "x - 1"] a
  obtain dev' where r: "draw_rect_cols dev y (sint y + sint h) x (x - 1) = Some dev'"
    and u: "fb_upd dev dev'"
    and p: "\<forall>px py. px < unat (width dev) \<longrightarrow> py < unat (height dev) \<longrightarrow>
        get_pixel dev' px py =
          (get_pixel dev px py \<or>
           ((px = unat x \<or> px = unat (x - 1)) \<and>
            (\<exists>k :: u16. sint y \<le> sint k \<and> sint k < sint y + sint h \<and> py = unat k)))"
    by blast
  have "ssd1306_draw_rect dev x y 0 h = Some dev'"
    using r by (simp add: ssd1306_draw_rect_def draw_rect_rows_none)
  with u p show "\<exists>dev'. ssd1306_draw_rect dev x y 0 h = Some dev' \<and> fb_upd dev dev' \<and>
         (\<forall>px < unat (width dev). \<forall>py < unat (height dev).
            get_pixel dev' px py =
              (get_pixel dev px py \<or>
               ((px = unat x \<or> px = unat (x - 1)) \<and>
                (\<exists>k :: u16. sint y \<le> sint k \<and> sint k < sint y + sint h \<and> py = unat k))))"
    by blast
qed

theorem draw_rect_degenerate_witness:
  "fb_inv \<lparr>width = 8, height = 8, pages = 1, i2c_addr = 0x3C, i2c_inst = 0,
      external_vcc = False, buff = Some (0x40, [0, 0, 0, 0, 0, 0, 0, 0]), buff_size = 8\<rparr> \<and>
   sint (1 :: u16) + sint (3 :: u16) \<le> 32767 \<and>
   (\<exists>dev'. ssd1306_draw_rect \<lparr>width = 8, height = 8, pages = 1, i2c_addr = 0x3C, i2c_inst = 0,
      external_vcc = False, buff = Some (0x40, [0, 0, 0, 0, 0, 0, 0, 0]), buff_size = 8\<rparr>
      1 1 3 0 = Some dev')"
proof -
  let ?d = "\<lparr>width = 8, height = 8, pages = 1, i2c_addr = 0x3C, i2c_inst = 0,
      external_vcc = False, buff = Some (0x40, [0, 0, 0, 0, 0, 0, 0, 0 :: u8]), buff_size = 8\<rparr>"
  have h: "fb_inv ?d \<and> sint (1 :: u16) + sint (3 :: u16) \<le> 32767"
    by (simp add: fb_inv_def)
  with draw_rect_degenerate [of ?d 1 3 1 1] show ?thesis by blast
qed

text \<open>
  The claim as stated fails: on a cleared 8 by 8 display, the rectangle at (1, 1) of width
  3 and height 0 lights rows 0 and 1 of columns 1 to 3 (the bytes 3 = bits 0 and 1), two
  runs and not one; with width 0 and height 3 it lights rows 1 to 3 of columns 0 and 1.
\<close>

theorem draw_rect_zero_height_two_rows:
  "map_option fb_bytes (ssd1306_draw_rect
      \<lparr>width = 8, height = 8, pages = 1, i2c_addr = 0x3C, i2c_inst = 0,
        external_vcc = False, buff = Some (0x40, [0, 0, 0, 0, 0, 0, 0, 0]), buff_size = 8\<rparr>
      1 1 3 0) = Some [0, 3, 3, 3, 0, 0, 0, 0] \<and>
   map_option fb_bytes (ssd1306_draw_rect
      \<lparr>width = 8, height = 8, pages = 1, i2c_addr = 0x3C, i2c_inst = 0,
        external_vcc = False, buff = Some (0x40, [0, 0, 0, 0, 0, 0, 0, 0]), buff_size = 8\<rparr>
      1 1 0 3) = Some [14, 14, 0, 0, 0, 0, 0, 0]"
  by code_simp

section \<open>Properties: image blit\<close>

lemma for_loop_rule:
  assumes "I i s" "i \<le> n"
    and step: "\<And>k t. i \<le> k \<Longrightarrow> k < n \<Longrightarrow> I k t \<Longrightarrow> \<exists>t'. body k t = Some t' \<and> I (Suc k) t'"
  shows "\<exists>s'. for_loop i n body s = Some s' \<and> I n s'"
  using assms
proof (induction "n - i" arbitrary: i s)
  case 0
  then show ?case by (simp add: for_loop.simps)
next
  case (Suc m)
  then have lt: "i < n" by simp
  from Suc.prems(3) [OF le_refl lt Suc.prems(1)]
  obtain t where t: "body i s = Some t" "I (Suc i) t" by blast
  have "\<exists>s'. for_loop (Suc i) n body t = Some s' \<and> I n s'"
  proof (rule Suc.hyps(1))
    show "m = n - Suc i" using Suc.hyps(2) by simp
    show "I (Suc i) t" by (rule t(2))
    show "Suc i \<le> n" using lt by simp
    show "\<exists>t'. body k u = Some t' \<and> I (Suc k) t'" if "Suc i \<le> k" "k < n" "I k u" for k u
      using Suc.prems(3) [of k u] that by simp
  qed
  with lt t(1) show ?case by (subst for_loop.simps) simp
qed

lemma bit_test: "(drop_bit n (v :: u8) AND 1 \<noteq> 0) = bit v n"
  by (simp add: bit_iff_odd_drop_bit and_one_eq odd_iff_mod_2_eq_one)

lemma unat16_of_nat: "n < 65536 \<Longrightarrow> unat (word_of_nat n :: 16 word) = n"
  by (simp add: unat_of_nat)

lemma img_index_less:
  assumes "i < w" "j < h" "w * h \<le> (m :: nat)"
  shows "i + j * w < m"
proof -
  have "i + j * w < w + j * w" using assms by simp
  also have "\<dots> = Suc j * w" by simp
  also have "\<dots> \<le> h * w" using assms by (intro mult_le_mono1) simp
  finally show ?thesis using assms by (simp add: mult.commute)
qed

lemma draw_image_px_at_origin:
  assumes inv: "fb_inv d" and i: "i < unat (width_img img)" and j: "j < unat (height_img img)"
    and fit: "unat (width_img img) * unat (height_img img) \<le> 8 * length (data_img img)"
    and small: "unat (width_img img) * unat (height_img img) \<le> 2147483648"
  shows "\<exists>d'. draw_image_px img 0 0 j i d = Some d' \<and> fb_upd d d' \<and>
     (\<forall>px py. px < unat (width d) \<longrightarrow> py < unat (height d) \<longrightarrow>
        get_pixel d' px py =
          (if px = i \<and> py = j then image_bit img i j else get_pixel d px py))"
proof -
  let ?w = "unat (width_img img)"
  have a: "i + j * ?w < 2147483648" using img_index_less [OF i j small] .
  have "i + j * ?w < 8 * length (data_img img)" using img_index_less [OF i j fit] .
  then have b: "(i + j * ?w) div 8 < length (data_img img)" by simp
  have i16: "i < 65536" using i unsigned_less [of "width_img img", where 'a = nat] by simp
  have j16: "j < 65536" using j unsigned_less [of "height_img img", where 'a = nat] by simp
  have e: "draw_image_px img 0 0 j i d =
      draw_pixel d (word_of_nat i) (word_of_nat j) (image_bit img i j)"
    using a b by (simp add: draw_image_px_def Let_def bit_test image_bit_def)
  show ?thesis
    unfolding e
    using draw_pixel_px [OF inv, of "word_of_nat i" "word_of_nat j" "image_bit img i j"]
    by (simp add: unat16_of_nat [OF i16] unat16_of_nat [OF j16])
qed


lemma draw_image_row:
  assumes inv: "fb_inv d" and j: "j < unat (height_img img)"
    and fit: "unat (width_img img) * unat (height_img img) \<le> 8 * length (data_img img)"
    and small: "unat (width_img img) * unat (height_img img) \<le> 2147483648"
  shows "\<exists>d'. for_loop 0 (unat (width_img img)) (draw_image_px img 0 0 j) d = Some d' \<and>
     fb_inv d' \<and> fb_upd d d' \<and>
     (\<forall>px py. px < unat (width d) \<longrightarrow> py < unat (height d) \<longrightarrow>
        get_pixel d' px py =
          (if px < unat (width_img img) \<and> py = j then image_bit img px j else get_pixel d px py))"
proof -
  define I where "I k t \<longleftrightarrow> fb_inv t \<and> fb_upd d t \<and>
     (\<forall>px py. px < unat (width d) \<longrightarrow> py < unat (height d) \<longrightarrow>
        get_pixel t px py = (if px < k \<and> py = j then image_bit img px j else get_pixel d px py))"
    for k t
  have start: "I 0 d" using inv by (simp add: I_def fb_upd_refl)
  have step: "\<exists>t'. draw_image_px img 0 0 j k t = Some t' \<and> I (Suc k) t'"
    if k: "k < unat (width_img img)" and t: "I k t" for k t
  proof -
    from t have it: "fb_inv t" and ut: "fb_upd d t"
      and pt: "\<And>px py. px < unat (width d) \<Longrightarrow> py < unat (height d) \<Longrightarrow>
        get_pixel t px py = (if px < k \<and> py = j then image_bit img px j else get_pixel d px py)"
      by (simp_all add: I_def)
    have g: "width t = width d" "height t = height d" using fb_upd_geom [OF ut] by simp_all
    from draw_image_px_at_origin [OF it k j fit small]
    obtain t' where r: "draw_image_px img 0 0 j k t = Some t'" and u: "fb_upd t t'"
      and p: "\<And>px py. px < unat (width d) \<Longrightarrow> py < unat (height d) \<Longrightarrow>
        get_pixel t' px py = (if px = k \<and> py = j then image_bit img k j else get_pixel t px py)"
      unfolding g by blast
    have "get_pixel t' px py =
        (if px < Suc k \<and> py = j then image_bit img px j else get_pixel d px py)"
      if "px < unat (width d)" "py < unat (height d)" for px py
      unfolding p [OF that] pt [OF that] by (auto simp add: less_Suc_eq)
    then have "I (Suc k) t'"
      using fb_upd_inv [OF it u] fb_upd_trans [OF ut u] by (simp add: I_def)
    with r show ?thesis by blast
  qed
  from for_loop_rule [of I 0 d "unat (width_img img)" "draw_image_px img 0 0 j", OF start _ step]
  show ?thesis unfolding I_def by fast
qed

lemma draw_image_at_origin:
  assumes inv: "fb_inv dev"
    and fit: "unat (width_img img) * unat (height_img img) \<le> 8 * length (data_img img)"
    and small: "unat (width_img img) * unat (height_img img) \<le> 2147483648"
  shows "\<exists>dev'. ssd1306_draw_image dev 0 0 img = Some dev' \<and> fb_upd dev dev' \<and>
     (\<forall>px py. px < unat (width dev) \<longrightarrow> py < unat (height dev) \<longrightarrow>
        get_pixel dev' px py =
          (if px < unat (width_img img) \<and> py < unat (height_img img)
           then image_bit img px py else get_pixel dev px py))"
proof -
  define I where "I k t \<longleftrightarrow> fb_inv t \<and> fb_upd dev t \<and>
     (\<forall>px py. px < unat (width dev) \<longrightarrow> py < unat (height dev) \<longrightarrow>
        get_pixel t px py =
          (if px < unat (width_img img) \<and> py < k then image_bit img px py else get_pixel dev px py))"
    for k t
  have start: "I 0 dev" using inv by (simp add: I_def fb_upd_refl)
  have step: "\<exists>t'. for_loop 0 (unat (width_img img)) (draw_image_px img 0 0 k) t = Some t' \<and>
      I (Suc k) t'"
    if k: "k < unat (height_img img)" and t: "I k t" for k t
  proof -
    from t have it: "fb_inv t" and ut: "fb_upd dev t"
      and pt: "\<And>px py. px < unat (width dev) \<Longrightarrow> py < unat (height dev) \<Longrightarrow>
        get_pixel t px py =
          (if px < unat (width_img img) \<and> py < k then image_bit img px py else get_pixel dev px py)"
      by (simp_all add: I_def)
    have g: "width t = width dev" "height t = height dev" using fb_upd_geom [OF ut] by simp_all
    from draw_image_row [OF it k fit small]
    obtain t' where r: "for_loop 0 (unat (width_img img)) (draw_image_px img 0 0 k) t = Some t'"
      and i': "fb_inv t'" and u: "fb_upd t t'"
      and p: "\<And>px py. px < unat (width dev) \<Longrightarrow> py < unat (height dev) \<Longrightarrow>
        get_pixel t' px py =
          (if px < unat (width_img img) \<and> py = k then image_bit img px k else get_pixel t px py)"
      unfolding g by blast
    have "get_pixel t' px py =
        (if px < unat (width_img img) \<and> py < Suc k then image_bit img px py
         else get_pixel dev px py)"
      if "px < unat (width dev)" "py < unat (height dev)" for px py
      unfolding p [OF that] pt [OF that] by (auto simp add: less_Suc_eq)
    then have "I (Suc k) t'"
      using i' fb_upd_trans [OF ut u] by (simp add: I_def)
    with r show ?thesis by blast
  qed
  from for_loop_rule [of I 0 dev "unat (height_img img)"
      "\<lambda>j. for_loop 0 (unat (width_img img)) (draw_image_px img 0 0 j)", OF start _ step]
  show ?thesis unfolding I_def ssd1306_draw_image_def by fast
qed

text \<open>
  Claim C9. For a device that satisfies the frame buffer invariant and an image no wider
  and no higher than the display, whose byte plane holds all its \<open>width * height\<close> bits
  (and fewer than \<open>2 ^ 31\<close> of them, the range of the \<open>int\<close> index), \<open>ssd1306_draw_image\<close>
  at offset (0, 0) returns, and afterwards the pixel \<open>(i, j)\<close> of the frame buffer is bit
  \<open>7 - i mod 8\<close> of image byte \<open>(i + j * width) div 8\<close>, for every \<open>(i, j)\<close> of the image.
\<close>

theorem draw_image_reproduces_bits:
  assumes "fb_inv dev"
    and "unat (width_img img) \<le> unat (width dev)" "unat (height_img img) \<le> unat (height dev)"
    and "unat (width_img img) * unat (height_img img) \<le> 8 * length (data_img img)"
    and "unat (width_img img) * unat (height_img img) \<le> 2147483648"
  shows "\<exists>dev'. ssd1306_draw_image dev 0 0 img = Some dev' \<and> fb_upd dev dev' \<and>
     (\<forall>i < unat (width_img img). \<forall>j < unat (height_img img).
        get_pixel dev' i j =
          bit (data_img img ! ((i + j * unat (width_img img)) div 8)) (7 - i mod 8))"
proof -
  from draw_image_at_origin [OF assms(1,4,5)]
  obtain dev' where r: "ssd1306_draw_image dev 0 0 img = Some dev'" and u: "fb_upd dev dev'"
    and p: "\<And>px py. px < unat (width dev) \<Longrightarrow> py < unat (height dev) \<Longrightarrow>
        get_pixel dev' px py =
          (if px < unat (width_img img) \<and> py < unat (height_img img)
           then image_bit img px py else get_pixel dev px py)"
    by blast
  have "get_pixel dev' i j =
      bit (data_img img ! ((i + j * unat (width_img img)) div 8)) (7 - i mod 8)"
    if "i < unat (width_img img)" "j < unat (height_img img)" for i j
    using p [of i j] that assms(2,3) by (simp add: image_bit_def)
  then have "\<forall>i < unat (width_img img). \<forall>j < unat (height_img img).
        get_pixel dev' i j =
          bit (data_img img ! ((i + j * unat (width_img img)) div 8)) (7 - i mod 8)"
    by simp
  with r u show ?thesis by (intro exI [of _ dev'] conjI)
qed


theorem draw_image_reproduces_bits_witness:
  "fb_inv \<lparr>width = 8, height = 8, pages = 1, i2c_addr = 0x3C, i2c_inst = 0,
      external_vcc = False, buff = Some (0x40, [0, 0, 0, 0, 0, 0, 0, 0]), buff_size = 8\<rparr> \<and>
   (\<exists>dev'. ssd1306_draw_image \<lparr>width = 8, height = 8, pages = 1, i2c_addr = 0x3C, i2c_inst = 0,
      external_vcc = False, buff = Some (0x40, [0, 0, 0, 0, 0, 0, 0, 0]), buff_size = 8\<rparr>
      0 0 \<lparr>width_img = 3, height_img = 3, length_img = 2, data_img = [0xAA, 0x80]\<rparr> = Some dev' \<and>
      get_pixel dev' 0 0 \<and> \<not> get_pixel dev' 1 0)"
proof -
  let ?d = "\<lparr>width = 8, height = 8, pages = 1, i2c_addr = 0x3C, i2c_inst = 0,
      external_vcc = False, buff = Some (0x40, [0, 0, 0, 0, 0, 0, 0, 0 :: u8]), buff_size = 8\<rparr>"
  let ?img = "\<lparr>width_img = 3, height_img = 3, length_img = 2, data_img = [0xAA, 0x80 :: u8]\<rparr>"
  have inv: "fb_inv ?d" by (simp add: fb_inv_def)
  have h: "unat (width_img ?img) \<le> unat (width ?d)" "unat (height_img ?img) \<le> unat (height ?d)"
    "unat (width_img ?img) * unat (height_img ?img) \<le> 8 * length (data_img ?img)"
    "unat (width_img ?img) * unat (height_img ?img) \<le> 2147483648"
    by simp_all
  from draw_image_reproduces_bits [OF inv h]
  obtain dev' where r: "ssd1306_draw_image ?d 0 0 ?img = Some dev'"
    and p: "\<forall>i < unat (width_img ?img). \<forall>j < unat (height_img ?img).
        get_pixel dev' i j =
          bit (data_img ?img ! ((i + j * unat (width_img ?img)) div 8)) (7 - i mod 8)"
    by (elim exE conjE)
  have w: "unat (width_img ?img) = 3" "unat (height_img ?img) = 3" by simp_all
  from p have "get_pixel dev' 0 0 = bit (data_img ?img ! ((0 + 0 * 3) div 8)) (7 - 0 mod 8)"
    unfolding w by (elim allE [of _ 0]) simp
  then have a: "get_pixel dev' 0 0" by simp
  from p have "get_pixel dev' 1 0 = bit (data_img ?img ! ((1 + 0 * 3) div 8)) (7 - 1 mod 8)"
    unfolding w by (elim allE [of _ 1] allE [of _ 0]) simp
  then have b: "\<not> get_pixel dev' 1 0" by simp
  from inv r a b show ?thesis by (intro conjI exI [of _ dev'])
qed

section \<open>Properties: lines\<close>

lemma word16_of_int_nonzero:
  assumes "0 < i" "i < 65536"
  shows "(word_of_int i :: 16 word) \<noteq> 0" "(word_of_int (- i) :: 16 word) \<noteq> 0"
proof -
  have "uint (word_of_int i :: 16 word) = i" using assms by (intro uint16_of_int) auto
  with assms show a: "(word_of_int i :: 16 word) \<noteq> 0" by auto
  have "(word_of_int (- i) :: 16 word) = - word_of_int i" by simp
  with a show "(word_of_int (- i) :: 16 word) \<noteq> 0" by simp
qed

lemma step_word_cases:
  assumes "s = 1 \<or> s = (- 1 :: 16 word)"
  shows "sint s = 1 \<or> sint s = - 1"
  using assms by auto

lemma step_away:
  assumes s: "s = 1 \<or> s = (- 1 :: 16 word)" and n: "0 < n" "int n \<le> 16383"
  shows "a + word_of_int (sint s * int n) \<noteq> (a :: 16 word)"
proof -
  have "(word_of_int (sint s * int n) :: 16 word) \<noteq> 0"
    using s word16_of_int_nonzero [of "int n"] n by auto
  then show ?thesis by simp
qed

lemma step_next:
  assumes s: "s = 1 \<or> s = (- 1 :: 16 word)"
  shows "(a :: 16 word) + word_of_int (sint s * int (Suc n)) =
     word_of_int (uint a + sint s) + word_of_int (sint s * int n)"
  using s by (auto simp add: algebra_simps)

lemma bresenham_end_x:
  fixes dx dy k D :: int
  assumes "0 \<le> dy" "dy < dx" "D = 2 * dy - dx + 2 * dx * k" "2 * dy - 2 * dx \<le> D" "D < 2 * dy"
  shows "k = 0"
proof (rule ccontr)
  assume "k \<noteq> 0"
  then consider "1 \<le> k" | "k \<le> - 1" by linarith
  then show False
  proof cases
    case 1
    from assms have "0 \<le> dx" by simp
    from mult_left_mono [OF 1 this] have "dx \<le> dx * k" by simp
    with assms show False by simp
  next
    case 2
    from assms have "0 \<le> dx" by simp
    from mult_left_mono [OF 2 this] have "dx * k \<le> - dx" by simp
    with assms show False by simp
  qed
qed

lemma bresenham_end_y:
  fixes dx dy k D :: int
  assumes "0 < dy" "dx \<le> dy" "D = dy - 2 * dx - 2 * dy * k" "- 2 * dx < D" "D \<le> 2 * dy - 2 * dx"
  shows "k = 0"
proof (rule ccontr)
  assume "k \<noteq> 0"
  then consider "1 \<le> k" | "k \<le> - 1" by linarith
  then show False
  proof cases
    case 1
    from assms have "0 \<le> dy" by simp
    from mult_left_mono [OF 1 this] have "dy \<le> dy * k" by simp
    with assms show False by simp
  next
    case 2
    from assms have "0 \<le> dy" by simp
    from mult_left_mono [OF 2 this] have "dy * k \<le> - dy" by simp
    with assms show False by simp
  qed
qed


lemma draw_line_x_reaches:
  fixes dxw dyw sx sy D x1 y1 x2 y2 :: "16 word" and n :: nat and k :: int
  assumes inv: "fb_inv dev"
    and dd: "0 \<le> sint dyw" "sint dyw < sint dxw" "sint dxw \<le> 16383"
    and sx: "sx = 1 \<or> sx = - 1" and sy: "sy = 1 \<or> sy = - 1"
    and xn: "x2 = x1 + word_of_int (sint sx * int n)" "int n \<le> sint dxw"
    and yk: "y2 = y1 + word_of_int (sint sy * k)"
    and D: "sint D = 2 * sint dyw - sint dxw - 2 * sint dyw * int n + 2 * sint dxw * k"
    and Dr: "2 * sint dyw - 2 * sint dxw \<le> sint D" "sint D < 2 * sint dyw"
    and lit: "x1 < width dev \<and> y1 < height dev \<longrightarrow> get_pixel dev (unat x1) (unat y1)"
  shows "\<exists>dev'. draw_line_x dev x1 y1 x2 D dxw dyw sx sy = Some dev' \<and> fb_upd dev dev' \<and>
     (x2 < width dev \<and> y2 < height dev \<longrightarrow> get_pixel dev' (unat x2) (unat y2)) \<and>
     (\<forall>px py. px < unat (width dev) \<longrightarrow> py < unat (height dev) \<longrightarrow>
        get_pixel dev px py \<longrightarrow> get_pixel dev' px py)"
  using inv xn yk D Dr lit
proof (induction n arbitrary: dev x1 y1 D k)
  case 0
  then have x: "x2 = x1" by simp
  have "k = 0"
  proof (rule bresenham_end_x [of "sint dyw" "sint dxw" "sint D" k])
    show "sint D = 2 * sint dyw - sint dxw + 2 * sint dxw * k" using "0.prems"(5) by simp
  qed (use dd "0.prems"(6,7) in simp_all)
  with "0.prems" have y: "y2 = y1" by simp
  have "draw_line_x dev x1 y1 x2 D dxw dyw sx sy = Some dev"
    using x by (subst draw_line_x.simps) simp
  with x y "0.prems"(1,8) fb_upd_refl [of dev] show ?case by simp
next
  case (Suc n)
  let ?dx = "sint dxw" and ?dy = "sint dyw"
  define x1' :: "16 word" where "x1' = word_of_int (uint x1 + sint sx)"
  define y1' :: "16 word" where "y1' = (if 0 \<le> sint D then word_of_int (uint y1 + sint sy) else y1)"
  define D1 :: "16 word" where "D1 = (if 0 \<le> sint D then word_of_int (sint D - 2 * ?dx) else D)"
  define D2 :: "16 word" where "D2 = word_of_int (sint D1 + 2 * ?dy)"
  define k' where "k' = (if 0 \<le> sint D then k - 1 else k)"
  have ne: "x1 \<noteq> x2"
    using step_away [OF sx, of "Suc n" x1] Suc.prems(2,3) dd by simp
  have unf: "draw_line_x dev x1 y1 x2 D dxw dyw sx sy =
      Option.bind (draw_pixel dev x1' y1' True) (\<lambda>d. draw_line_x d x1' y1' x2 D2 dxw dyw sx sy)"
    using ne unfolding x1'_def y1'_def D1_def D2_def
    by (subst draw_line_x.simps) (simp add: Let_def)
  have "sint (word_of_int (sint D - 2 * ?dx) :: 16 word) = sint D - 2 * ?dx" if "0 \<le> sint D"
    using that Suc.prems(6,7) dd by (intro sint16_of_int) auto
  then have sD1: "sint D1 = (if 0 \<le> sint D then sint D - 2 * ?dx else sint D)"
    unfolding D1_def by simp
  have sD2: "sint D2 = sint D1 + 2 * ?dy"
    unfolding D2_def using sD1 Suc.prems(6,7) dd by (intro sint16_of_int) auto
  have x': "x2 = x1' + word_of_int (sint sx * int n)"
    unfolding Suc.prems(2) x1'_def by (rule step_next [OF sx])
  have y': "y2 = y1' + word_of_int (sint sy * k')"
    unfolding Suc.prems(4) y1'_def k'_def by (simp add: algebra_simps)
  have D': "sint D2 = 2 * ?dy - ?dx - 2 * ?dy * int n + 2 * ?dx * k'"
    unfolding sD2 sD1 k'_def using Suc.prems(5) by (simp add: algebra_simps)
  have Dr': "2 * ?dy - 2 * ?dx \<le> sint D2" "sint D2 < 2 * ?dy"
    unfolding sD2 sD1 using Suc.prems(6,7) dd by auto
  from draw_pixel_on [OF Suc.prems(1), of x1' y1']
  obtain d where d: "draw_pixel dev x1' y1' True = Some d" and u: "fb_upd dev d"
    and inv': "fb_inv d" and g: "width d = width dev" "height d = height dev"
    and p: "\<And>px py. px < unat (width dev) \<Longrightarrow> py < unat (height dev) \<Longrightarrow>
        get_pixel d px py = ((px = unat x1' \<and> py = unat y1') \<or> get_pixel dev px py)"
    by blast
  have lit': "x1' < width d \<and> y1' < height d \<longrightarrow> get_pixel d (unat x1') (unat y1')"
    unfolding g using p [of "unat x1'" "unat y1'"] by (simp add: word_less_nat_alt)
  have n': "int n \<le> ?dx" using Suc.prems(3) by simp
  from Suc.IH [OF inv' x' n' y' D' Dr' lit']
  obtain dev' where r: "draw_line_x d x1' y1' x2 D2 dxw dyw sx sy = Some dev'"
    and u': "fb_upd d dev'"
    and e: "x2 < width dev \<and> y2 < height dev \<longrightarrow> get_pixel dev' (unat x2) (unat y2)"
    and m: "\<And>px py. px < unat (width dev) \<Longrightarrow> py < unat (height dev) \<Longrightarrow>
        get_pixel d px py \<Longrightarrow> get_pixel dev' px py"
    unfolding g by blast
  have "draw_line_x dev x1 y1 x2 D dxw dyw sx sy = Some dev'"
    unfolding unf using d r by simp
  moreover have "fb_upd dev dev'" using u u' by (rule fb_upd_trans)
  moreover have "get_pixel dev' px py"
    if "px < unat (width dev)" "py < unat (height dev)" "get_pixel dev px py" for px py
    using m [OF that(1,2)] p [OF that(1,2)] that(3) by simp
  ultimately show ?case using e by blast
qed


lemma draw_line_y_reaches:
  fixes dxw dyw sx sy D x1 y1 x2 y2 :: "16 word" and n :: nat and k :: int
  assumes inv: "fb_inv dev"
    and dd: "0 \<le> sint dxw" "sint dxw \<le> sint dyw" "0 < sint dyw" "sint dyw \<le> 16383"
    and sx: "sx = 1 \<or> sx = - 1" and sy: "sy = 1 \<or> sy = - 1"
    and yn: "y2 = y1 + word_of_int (sint sy * int n)" "int n \<le> sint dyw"
    and xk: "x2 = x1 + word_of_int (sint sx * k)"
    and D: "sint D = sint dyw - 2 * sint dxw + 2 * sint dxw * int n - 2 * sint dyw * k"
    and Dr: "- 2 * sint dxw < sint D" "sint D \<le> 2 * sint dyw - 2 * sint dxw"
    and lit: "x1 < width dev \<and> y1 < height dev \<longrightarrow> get_pixel dev (unat x1) (unat y1)"
  shows "\<exists>dev'. draw_line_y dev x1 y1 y2 D dxw dyw sx sy = Some dev' \<and> fb_upd dev dev' \<and>
     (x2 < width dev \<and> y2 < height dev \<longrightarrow> get_pixel dev' (unat x2) (unat y2)) \<and>
     (\<forall>px py. px < unat (width dev) \<longrightarrow> py < unat (height dev) \<longrightarrow>
        get_pixel dev px py \<longrightarrow> get_pixel dev' px py)"
  using inv yn xk D Dr lit
proof (induction n arbitrary: dev x1 y1 D k)
  case 0
  then have y: "y2 = y1" by simp
  have "k = 0"
  proof (rule bresenham_end_y [of "sint dyw" "sint dxw" "sint D" k])
    show "sint D = sint dyw - 2 * sint dxw - 2 * sint dyw * k" using "0.prems"(5) by simp
  qed (use dd "0.prems"(6,7) in simp_all)
  with "0.prems" have x: "x2 = x1" by simp
  have "draw_line_y dev x1 y1 y2 D dxw dyw sx sy = Some dev"
    using y by (subst draw_line_y.simps) simp
  with x y "0.prems"(1,8) fb_upd_refl [of dev] show ?case by simp
next
  case (Suc n)
  let ?dx = "sint dxw" and ?dy = "sint dyw"
  define y1' :: "16 word" where "y1' = word_of_int (uint y1 + sint sy)"
  define x1' :: "16 word" where "x1' = (if sint D \<le> 0 then word_of_int (uint x1 + sint sx) else x1)"
  define D1 :: "16 word" where "D1 = (if sint D \<le> 0 then word_of_int (sint D + 2 * ?dy) else D)"
  define D2 :: "16 word" where "D2 = word_of_int (sint D1 - 2 * ?dx)"
  define k' where "k' = (if sint D \<le> 0 then k - 1 else k)"
  have ne: "y1 \<noteq> y2"
    using step_away [OF sy, of "Suc n" y1] Suc.prems(2,3) dd by simp
  have unf: "draw_line_y dev x1 y1 y2 D dxw dyw sx sy =
      Option.bind (draw_pixel dev x1' y1' True) (\<lambda>d. draw_line_y d x1' y1' y2 D2 dxw dyw sx sy)"
    using ne unfolding x1'_def y1'_def D1_def D2_def
    by (subst draw_line_y.simps) (simp add: Let_def)
  have "sint (word_of_int (sint D + 2 * ?dy) :: 16 word) = sint D + 2 * ?dy" if "sint D \<le> 0"
    using that Suc.prems(6,7) dd by (intro sint16_of_int) auto
  then have sD1: "sint D1 = (if sint D \<le> 0 then sint D + 2 * ?dy else sint D)"
    unfolding D1_def by simp
  have sD2: "sint D2 = sint D1 - 2 * ?dx"
    unfolding D2_def using sD1 Suc.prems(6,7) dd by (intro sint16_of_int) auto
  have y': "y2 = y1' + word_of_int (sint sy * int n)"
    unfolding Suc.prems(2) y1'_def by (rule step_next [OF sy])
  have x': "x2 = x1' + word_of_int (sint sx * k')"
    unfolding Suc.prems(4) x1'_def k'_def by (simp add: algebra_simps)
  have D': "sint D2 = ?dy - 2 * ?dx + 2 * ?dx * int n - 2 * ?dy * k'"
    unfolding sD2 sD1 k'_def using Suc.prems(5) by (simp add: algebra_simps)
  have Dr': "- 2 * ?dx < sint D2" "sint D2 \<le> 2 * ?dy - 2 * ?dx"
    unfolding sD2 sD1 using Suc.prems(6,7) dd by auto
  from draw_pixel_on [OF Suc.prems(1), of x1' y1']
  obtain d where d: "draw_pixel dev x1' y1' True = Some d" and u: "fb_upd dev d"
    and inv': "fb_inv d" and g: "width d = width dev" "height d = height dev"
    and p: "\<And>px py. px < unat (width dev) \<Longrightarrow> py < unat (height dev) \<Longrightarrow>
        get_pixel d px py = ((px = unat x1' \<and> py = unat y1') \<or> get_pixel dev px py)"
    by blast
  have lit': "x1' < width d \<and> y1' < height d \<longrightarrow> get_pixel d (unat x1') (unat y1')"
    unfolding g using p [of "unat x1'" "unat y1'"] by (simp add: word_less_nat_alt)
  have n': "int n \<le> ?dy" using Suc.prems(3) by simp
  from Suc.IH [OF inv' y' n' x' D' Dr' lit']
  obtain dev' where r: "draw_line_y d x1' y1' y2 D2 dxw dyw sx sy = Some dev'"
    and u': "fb_upd d dev'"
    and e: "x2 < width dev \<and> y2 < height dev \<longrightarrow> get_pixel dev' (unat x2) (unat y2)"
    and m: "\<And>px py. px < unat (width dev) \<Longrightarrow> py < unat (height dev) \<Longrightarrow>
        get_pixel d px py \<Longrightarrow> get_pixel dev' px py"
    unfolding g by blast
  have "draw_line_y dev x1 y1 y2 D dxw dyw sx sy = Some dev'"
    unfolding unf using d r by simp
  moreover have "fb_upd dev dev'" using u u' by (rule fb_upd_trans)
  moreover have "get_pixel dev' px py"
    if "px < unat (width dev)" "py < unat (height dev)" "get_pixel dev px py" for px py
    using m [OF that(1,2)] p [OF that(1,2)] that(3) by simp
  ultimately show ?case using e by blast
qed


lemma line_delta:
  fixes a b d0 dw sw :: "16 word"
  assumes "unat a < 16384" "unat b < 16384"
    and d0_def: "d0 = word_of_int (uint b - uint a)"
    and dw_def: "dw = (if sint d0 < 0 then word_of_int (- sint d0) else d0)"
    and sw_def: "sw = (if sint d0 < 0 then word_of_int (- 1) else 1)"
  shows "0 \<le> sint dw" "sint dw \<le> 16383" "sw = 1 \<or> sw = - 1"
    "b = a + word_of_int (sint sw * int (nat (sint dw)))"
    "b = a + word_of_int (sint sw * sint dw)"
    "sint dw = 0 \<Longrightarrow> b = a"
proof -
  have "uint a = int (unat a)" "uint b = int (unat b)" by simp_all
  then have ua: "0 \<le> uint a" "uint a < 16384" "0 \<le> uint b" "uint b < 16384"
    using assms(1,2) by linarith+
  have r: "- 32768 \<le> uint b - uint a" "uint b - uint a < 32768"
    "- 32768 \<le> - (uint b - uint a)" "- (uint b - uint a) < 32768"
    using ua by linarith+
  have s0: "sint d0 = uint b - uint a"
    unfolding d0_def using r(1,2) by (rule sint16_of_int)
  have "sint (word_of_int (- sint d0) :: 16 word) = - sint d0"
    unfolding s0 using r(3,4) by (rule sint16_of_int)
  then have sd: "sint dw = \<bar>uint b - uint a\<bar>"
    unfolding dw_def using s0 by auto
  show "0 \<le> sint dw" "sint dw \<le> 16383" using sd ua by linarith+
  show "sw = 1 \<or> sw = - 1" unfolding sw_def by simp
  have "sint sw = (if sint d0 < 0 then - 1 else 1)" unfolding sw_def by simp
  then have m: "sint sw * sint dw = uint b - uint a" using sd s0 by auto
  have e: "a + word_of_int (uint b - uint a) = b" by simp
  show "b = a + word_of_int (sint sw * sint dw)" unfolding m e ..
  then show "b = a + word_of_int (sint sw * int (nat (sint dw)))"
    using \<open>0 \<le> sint dw\<close> by simp
  show "b = a" if "sint dw = 0"
    using that sd by (simp add: word_uint_eq_iff)
qed


lemma draw_line_endpoints:
  fixes x1 y1 x2 y2 :: "16 word"
  assumes inv: "fb_inv dev"
    and b: "unat x1 < 16384" "unat y1 < 16384" "unat x2 < 16384" "unat y2 < 16384"
  shows "\<exists>dev'. ssd1306_draw_line dev x1 y1 x2 y2 = Some dev' \<and> fb_upd dev dev' \<and>
     (x1 < width dev \<and> y1 < height dev \<longrightarrow> get_pixel dev' (unat x1) (unat y1)) \<and>
     (x2 < width dev \<and> y2 < height dev \<longrightarrow> get_pixel dev' (unat x2) (unat y2)) \<and>
     (\<forall>px py. px < unat (width dev) \<longrightarrow> py < unat (height dev) \<longrightarrow>
        get_pixel dev px py \<longrightarrow> get_pixel dev' px py)"
proof -
  define dx0 :: "16 word" where "dx0 = word_of_int (uint x2 - uint x1)"
  define dy0 :: "16 word" where "dy0 = word_of_int (uint y2 - uint y1)"
  define dx :: "16 word" where "dx = (if sint dx0 < 0 then word_of_int (- sint dx0) else dx0)"
  define sx :: "16 word" where "sx = (if sint dx0 < 0 then word_of_int (- 1) else 1)"
  define dy :: "16 word" where "dy = (if sint dy0 < 0 then word_of_int (- sint dy0) else dy0)"
  define sy :: "16 word" where "sy = (if sint dy0 < 0 then word_of_int (- 1) else 1)"
  define Dx :: "16 word" where "Dx = word_of_int (sint dy * 2 - sint dx)"
  define Dy :: "16 word" where "Dy = word_of_int (sint dy - sint dx * 2)"
  note fx = line_delta [OF b(1,3) dx0_def dx_def sx_def]
  note fy = line_delta [OF b(2,4) dy0_def dy_def sy_def]
  have unf: "ssd1306_draw_line dev x1 y1 x2 y2 =
      Option.bind (draw_pixel dev x1 y1 True)
        (\<lambda>d. if sint dy < sint dx then draw_line_x d x1 y1 x2 Dx dx dy sx sy
             else draw_line_y d x1 y1 y2 Dy dx dy sx sy)"
    unfolding ssd1306_draw_line_def Let_def dx0_def dy0_def dx_def dy_def sx_def sy_def
      Dx_def Dy_def ..
  from draw_pixel_on [OF inv, of x1 y1]
  obtain d where d: "draw_pixel dev x1 y1 True = Some d" and u: "fb_upd dev d"
    and inv': "fb_inv d" and g: "width d = width dev" "height d = height dev"
    and p: "\<And>px py. px < unat (width dev) \<Longrightarrow> py < unat (height dev) \<Longrightarrow>
        get_pixel d px py = ((px = unat x1 \<and> py = unat y1) \<or> get_pixel dev px py)"
    by blast
  have lit: "x1 < width d \<and> y1 < height d \<longrightarrow> get_pixel d (unat x1) (unat y1)"
    unfolding g using p [of "unat x1" "unat y1"] by (simp add: word_less_nat_alt)
  have "\<exists>dev'. (if sint dy < sint dx then draw_line_x d x1 y1 x2 Dx dx dy sx sy
             else draw_line_y d x1 y1 y2 Dy dx dy sx sy) = Some dev' \<and> fb_upd d dev' \<and>
     (x2 < width d \<and> y2 < height d \<longrightarrow> get_pixel dev' (unat x2) (unat y2)) \<and>
     (\<forall>px py. px < unat (width d) \<longrightarrow> py < unat (height d) \<longrightarrow>
        get_pixel d px py \<longrightarrow> get_pixel dev' px py)"
  proof (cases "sint dy < sint dx")
    case True
    have sD: "sint Dx = 2 * sint dy - sint dx"
      unfolding Dx_def using fx(1,2) fy(1,2) True by (intro sint16_of_int [THEN trans]) auto
    have "\<exists>dev'. draw_line_x d x1 y1 x2 Dx dx dy sx sy = Some dev' \<and> fb_upd d dev' \<and>
       (x2 < width d \<and> y2 < height d \<longrightarrow> get_pixel dev' (unat x2) (unat y2)) \<and>
       (\<forall>px py. px < unat (width d) \<longrightarrow> py < unat (height d) \<longrightarrow>
          get_pixel d px py \<longrightarrow> get_pixel dev' px py)"
    proof (rule draw_line_x_reaches [where n = "nat (sint dx)" and k = "sint dy"])
      show "sint Dx = 2 * sint dy - sint dx - 2 * sint dy * int (nat (sint dx)) + 2 * sint dx * sint dy"
        unfolding sD using fx(1) by simp
      show "2 * sint dy - 2 * sint dx \<le> sint Dx" "sint Dx < 2 * sint dy"
        unfolding sD using True fy(1) by simp_all
      show "int (nat (sint dx)) \<le> sint dx" using fx(1) by simp
    qed (use inv' fx fy True lit in simp_all)
    with True show ?thesis by simp
  next
    case False
    show ?thesis
    proof (cases "sint dy = 0")
      case True
      with False fx(1) have "sint dx = 0" by simp
      with True fx(6) fy(6) have e: "x2 = x1" "y2 = y1" by simp_all
      have "draw_line_y d x1 y1 y2 Dy dx dy sx sy = Some d"
        using e by (subst draw_line_y.simps) simp
      with False e lit fb_upd_refl [OF inv'] show ?thesis by simp
    next
      case nz: False
      have sD: "sint Dy = sint dy - 2 * sint dx"
        unfolding Dy_def using fx(1,2) fy(1,2) False by (intro sint16_of_int [THEN trans]) auto
      have "\<exists>dev'. draw_line_y d x1 y1 y2 Dy dx dy sx sy = Some dev' \<and> fb_upd d dev' \<and>
         (x2 < width d \<and> y2 < height d \<longrightarrow> get_pixel dev' (unat x2) (unat y2)) \<and>
         (\<forall>px py. px < unat (width d) \<longrightarrow> py < unat (height d) \<longrightarrow>
            get_pixel d px py \<longrightarrow> get_pixel dev' px py)"
      proof (rule draw_line_y_reaches [where n = "nat (sint dy)" and k = "sint dx"])
        show "sint Dy = sint dy - 2 * sint dx + 2 * sint dx * int (nat (sint dy)) - 2 * sint dy * sint dx"
          unfolding sD using fy(1) by simp
        show "- 2 * sint dx < sint Dy" "sint Dy \<le> 2 * sint dy - 2 * sint dx"
          unfolding sD using nz fy(1) by simp_all
        show "int (nat (sint dy)) \<le> sint dy" using fy(1) by simp
        show "0 < sint dy" using nz fy(1) by simp
        show "sint dx \<le> sint dy" using False by simp
      qed (use inv' fx fy lit in simp_all)
      with False show ?thesis by simp
    qed
  qed
  then obtain dev' where r: "(if sint dy < sint dx then draw_line_x d x1 y1 x2 Dx dx dy sx sy
             else draw_line_y d x1 y1 y2 Dy dx dy sx sy) = Some dev'"
    and u': "fb_upd d dev'"
    and e: "x2 < width dev \<and> y2 < height dev \<longrightarrow> get_pixel dev' (unat x2) (unat y2)"
    and m: "\<And>px py. px < unat (width dev) \<Longrightarrow> py < unat (height dev) \<Longrightarrow>
        get_pixel d px py \<Longrightarrow> get_pixel dev' px py"
    unfolding g by blast
  have "ssd1306_draw_line dev x1 y1 x2 y2 = Some dev'"
    unfolding unf using d r by simp
  moreover have "fb_upd dev dev'" using u u' by (rule fb_upd_trans)
  moreover have "get_pixel dev' px py"
    if "px < unat (width dev)" "py < unat (height dev)" "get_pixel dev px py" for px py
    using m [OF that(1,2)] p [OF that(1,2)] that(3) by simp
  moreover have "x1 < width dev \<and> y1 < height dev \<longrightarrow> get_pixel dev' (unat x1) (unat y1)"
    using m [of "unat x1" "unat y1"] lit unfolding g by (simp add: word_less_nat_alt)
  ultimately show ?thesis using e by blast
qed


text \<open>
  Claim C5, as the code has it. On a device that satisfies the frame buffer invariant,
  for endpoints with coordinates below 16384 (where the 16-bit error term cannot wrap),
  \<open>ssd1306_draw_line\<close> returns for either order of the endpoints, both endpoints are lit
  afterwards in either result (as far as they are on the display), and no pixel that was
  lit is cleared. The two orders need not light the same pixels.
\<close>

theorem draw_line_plots_endpoints:
  "fb_inv dev \<and> unat x1 < 16384 \<and> unat y1 < 16384 \<and> unat x2 < 16384 \<and> unat y2 < 16384 \<longrightarrow>
     (\<exists>d1 d2. ssd1306_draw_line dev x1 y1 x2 y2 = Some d1 \<and>
        ssd1306_draw_line dev x2 y2 x1 y1 = Some d2 \<and>
        (x1 < width dev \<and> y1 < height dev \<longrightarrow>
           get_pixel d1 (unat x1) (unat y1) \<and> get_pixel d2 (unat x1) (unat y1)) \<and>
        (x2 < width dev \<and> y2 < height dev \<longrightarrow>
           get_pixel d1 (unat x2) (unat y2) \<and> get_pixel d2 (unat x2) (unat y2)) \<and>
        (\<forall>px < unat (width dev). \<forall>py < unat (height dev).
           get_pixel dev px py \<longrightarrow> get_pixel d1 px py \<and> get_pixel d2 px py))"
proof
  assume a: "fb_inv dev \<and> unat x1 < 16384 \<and> unat y1 < 16384 \<and> unat x2 < 16384 \<and> unat y2 < 16384"
  from draw_line_endpoints [of dev x1 y1 x2 y2] a
  obtain d1 where d1: "ssd1306_draw_line dev x1 y1 x2 y2 = Some d1"
    and p1: "x1 < width dev \<and> y1 < height dev \<longrightarrow> get_pixel d1 (unat x1) (unat y1)"
      "x2 < width dev \<and> y2 < height dev \<longrightarrow> get_pixel d1 (unat x2) (unat y2)"
    and m1: "\<forall>px py. px < unat (width dev) \<longrightarrow> py < unat (height dev) \<longrightarrow>
        get_pixel dev px py \<longrightarrow> get_pixel d1 px py"
    by blast
  from draw_line_endpoints [of dev x2 y2 x1 y1] a
  obtain d2 where d2: "ssd1306_draw_line dev x2 y2 x1 y1 = Some d2"
    and p2: "x2 < width dev \<and> y2 < height dev \<longrightarrow> get_pixel d2 (unat x2) (unat y2)"
      "x1 < width dev \<and> y1 < height dev \<longrightarrow> get_pixel d2 (unat x1) (unat y1)"
    and m2: "\<forall>px py. px < unat (width dev) \<longrightarrow> py < unat (height dev) \<longrightarrow>
        get_pixel dev px py \<longrightarrow> get_pixel d2 px py"
    by blast
  from d1 d2 p1 p2 m1 m2
  show "\<exists>d1 d2. ssd1306_draw_line dev x1 y1 x2 y2 = Some d1 \<and>
        ssd1306_draw_line dev x2 y2 x1 y1 = Some d2 \<and>
        (x1 < width dev \<and> y1 < height dev \<longrightarrow>
           get_pixel d1 (unat x1) (unat y1) \<and> get_pixel d2 (unat x1) (unat y1)) \<and>
        (x2 < width dev \<and> y2 < height dev \<longrightarrow>
           get_pixel d1 (unat x2) (unat y2) \<and> get_pixel d2 (unat x2) (unat y2)) \<and>
        (\<forall>px < unat (width dev). \<forall>py < unat (height dev).
           get_pixel dev px py \<longrightarrow> get_pixel d1 px py \<and> get_pixel d2 px py)"
    by (intro exI [of _ d1] exI [of _ d2]) simp
qed

theorem draw_line_plots_endpoints_witness:
  "fb_inv \<lparr>width = 4, height = 8, pages = 1, i2c_addr = 0x3C, i2c_inst = 0,
      external_vcc = False, buff = Some (0x40, [0, 0, 0, 0]), buff_size = 4\<rparr> \<and>
   unat (0 :: u16) < 16384 \<and> unat (2 :: u16) < 16384 \<and> unat (1 :: u16) < 16384 \<and>
   (\<exists>d1 d2. ssd1306_draw_line \<lparr>width = 4, height = 8, pages = 1, i2c_addr = 0x3C, i2c_inst = 0,
      external_vcc = False, buff = Some (0x40, [0, 0, 0, 0]), buff_size = 4\<rparr> 0 0 2 1 = Some d1 \<and>
      ssd1306_draw_line \<lparr>width = 4, height = 8, pages = 1, i2c_addr = 0x3C, i2c_inst = 0,
      external_vcc = False, buff = Some (0x40, [0, 0, 0, 0]), buff_size = 4\<rparr> 2 1 0 0 = Some d2 \<and>
      get_pixel d1 0 0 \<and> get_pixel d2 0 0 \<and> get_pixel d1 2 1 \<and> get_pixel d2 2 1)"
proof -
  let ?d = "\<lparr>width = 4, height = 8, pages = 1, i2c_addr = 0x3C, i2c_inst = 0,
      external_vcc = False, buff = Some (0x40, [0, 0, 0, 0 :: u8]), buff_size = 4\<rparr>"
  have h: "fb_inv ?d \<and> unat (0 :: u16) < 16384 \<and> unat (0 :: u16) < 16384 \<and>
      unat (2 :: u16) < 16384 \<and> unat (1 :: u16) < 16384"
    by (simp add: fb_inv_def)
  from draw_line_plots_endpoints [of ?d 0 0 2 1, THEN mp, OF h]
  obtain d1 d2 where r: "ssd1306_draw_line ?d 0 0 2 1 = Some d1" "ssd1306_draw_line ?d 2 1 0 0 = Some d2"
    and p: "(0 :: u16) < width ?d \<and> (0 :: u16) < height ?d \<longrightarrow>
           get_pixel d1 (unat (0 :: u16)) (unat (0 :: u16)) \<and> get_pixel d2 (unat (0 :: u16)) (unat (0 :: u16))"
      "(2 :: u16) < width ?d \<and> (1 :: u16) < height ?d \<longrightarrow>
           get_pixel d1 (unat (2 :: u16)) (unat (1 :: u16)) \<and> get_pixel d2 (unat (2 :: u16)) (unat (1 :: u16))"
    by (elim exE conjE)
  from p have "get_pixel d1 0 0" "get_pixel d2 0 0" "get_pixel d1 2 1" "get_pixel d2 2 1"
    by simp_all
  with h r show ?thesis by (intro conjI exI [of _ d1] exI [of _ d2]) simp_all
qed

text \<open>
  The claim as stated fails: on a cleared 4 by 8 display the line from (0, 0) to (2, 1)
  lights (0, 0), (1, 1) and (2, 1), and the line from (2, 1) to (0, 0) lights (2, 1),
  (1, 0) and (0, 0); the error term is tested with \<open>D >= 0\<close> in both directions, so a tie
  is broken towards the far end.
\<close>

theorem draw_line_order_matters:
  "map_option fb_bytes (ssd1306_draw_line
      \<lparr>width = 4, height = 8, pages = 1, i2c_addr = 0x3C, i2c_inst = 0,
        external_vcc = False, buff = Some (0x40, [0, 0, 0, 0]), buff_size = 4\<rparr>
      0 0 2 1) = Some [1, 2, 2, 0] \<and>
   map_option fb_bytes (ssd1306_draw_line
      \<lparr>width = 4, height = 8, pages = 1, i2c_addr = 0x3C, i2c_inst = 0,
        external_vcc = False, buff = Some (0x40, [0, 0, 0, 0]), buff_size = 4\<rparr>
      2 1 0 0) = Some [1, 1, 2, 0]"
  by code_simp

section \<open>Properties: vertical scroll\<close>

lemma bit_test_gen: "m < 8 \<Longrightarrow> ((b :: u8) AND 2 ^ m \<noteq> 0) = bit b m"
  by (simp add: bit_iff_and_push_bit_not_eq_0)

lemma bit_shl_carry_gen:
  "0 < j \<Longrightarrow> bit (push_bit j (b :: u8) OR (if c then 1 else 0)) k =
     (if k = 0 then c else j \<le> k \<and> k < 8 \<and> bit b (k - j))"
  by (auto simp add: bit_simps)

lemma bit_shr_set_gen:
  "m < 8 \<Longrightarrow> bit (drop_bit j (b :: u8) OR 2 ^ m) k = (bit b (j + k) \<or> k = m)"
  by (auto simp add: bit_simps)

lemma bit_set_gen: "m < 8 \<Longrightarrow> bit (((x :: u8) AND NOT (2 ^ m)) OR 2 ^ m) k = (k = m \<or> bit x k)"
  by (auto simp add: bit_simps dest: bit_imp_le_length)

lemma bit_clear_gen: "m < 8 \<Longrightarrow> bit ((x :: u8) AND NOT (2 ^ m)) k = (k \<noteq> m \<and> bit x k)"
  by (auto simp add: bit_simps dest: bit_imp_le_length)

lemma bit7_test: "((b :: u8) AND 0x80 \<noteq> 0) = bit b 7"
  using bit_test_gen [of 7 b] by simp

lemma bit0_test: "((b :: u8) AND 0x01 \<noteq> 0) = bit b 0"
  using bit_test_gen [of 0 b] by simp

lemma bit_u8_bound: "bit (b :: u8) k \<Longrightarrow> k < 8"
  by (auto dest: bit_imp_le_length)

lemma bit_shl1: "bit (shl1 b c) k = (if k = 0 then c else k < 8 \<and> bit b (k - 1))"
  unfolding shl1_def using bit_shl_carry_gen [of 1 b c k] by auto

lemma bit_shr1: "bit (shr1 b c) k = (bit b (Suc k) \<or> (c \<and> k = 7))"
  unfolding shr1_def using bit_shr_set_gen [of 7 1 b k]
  by (cases c) (simp_all add: bit_drop_bit_eq)

lemma wrap_low: "(shl1 b False AND NOT 0x01) OR (if c then 0x01 else 0) = shl1 b c"
proof (rule bit_word_eqI)
  fix k
  show "bit ((shl1 b False AND NOT 0x01) OR (if c then 0x01 else 0)) k = bit (shl1 b c) k"
    using bit_set_gen [of 0 "shl1 b False" k] bit_clear_gen [of 0 "shl1 b False" k]
    by (cases c) (simp_all add: bit_shl1)
qed

lemma wrap_high: "(shr1 b False AND NOT 0x80) OR (if c then 0x80 else 0) = shr1 b c"
proof (rule bit_word_eqI)
  fix k
  show "bit ((shr1 b False AND NOT 0x80) OR (if c then 0x80 else 0)) k = bit (shr1 b c) k"
    using bit_set_gen [of 7 "shr1 b False" k] bit_clear_gen [of 7 "shr1 b False" k]
      bit_u8_bound [of b 8]
    by (cases c) (auto simp add: bit_shr1)
qed

lemma shr1_shl1: "shr1 (shl1 b c) (bit b 7) = b"
proof (rule bit_word_eqI)
  fix k
  assume "k < LENGTH(8)"
  then have "k < 7 \<or> k = 7" by auto
  then show "bit (shr1 (shl1 b c) (bit b 7)) k = bit b k"
    by (auto simp add: bit_shr1 bit_shl1)
qed

lemma shl1_shr1: "shl1 (shr1 b c) (bit b 0) = b"
proof (rule bit_word_eqI)
  fix k
  assume "k < LENGTH(8)"
  then have "k = 0 \<or> (0 < k \<and> k - 1 < 7 \<and> Suc (k - 1) = k)" by auto
  then show "bit (shl1 (shr1 b c) (bit b 0)) k = bit b k"
    by (auto simp add: bit_shr1 bit_shl1)
qed

lemma shl1_low: "bit (shl1 b c) 0 = c"
  by (simp add: bit_shl1)

lemma shr1_high: "bit (shr1 b c) 7 = c"
  using bit_u8_bound [of b 8] by (auto simp add: bit_shr1)

lemma length_filter_sum: "length (filter P xs) = (\<Sum>x\<leftarrow>xs. of_bool (P x))"
  by (induction xs) simp_all

lemma popcount_sum: "popcount b = (\<Sum>k\<leftarrow>[0..<8]. of_bool (bit b k))"
  unfolding popcount_def by (rule length_filter_sum)

lemma upt8: "[0..<8] = [0, 1, 2, 3, 4, 5, 6, 7 :: nat]"
  by (simp add: upt_rec)

lemma popcount_shl1: "popcount (shl1 b c) + of_bool (bit b 7) = popcount b + of_bool c"
  unfolding popcount_sum upt8 by (simp add: bit_shl1)

lemma popcount_shr1: "popcount (shr1 b c) + of_bool (bit b 0) = popcount b + of_bool c"
  unfolding popcount_sum upt8 using bit_u8_bound [of b 8]
  by (auto simp add: bit_shr1 eval_nat_numeral)


lemma scroll_down_page_step:
  assumes "page * w + col < 65536" "page * w + col < length bs"
  shows "scroll_down_page w col page (if c then 0x01 else 0, bs) =
     Some (if bit (bs ! (page * w + col)) 7 then 0x01 else 0,
           bs[page * w + col := shl1 (bs ! (page * w + col)) c])"
  using assms by (simp add: scroll_down_page_def Let_def bit7_test shl1_def)

lemma int_mod_small: "k < 65536 \<Longrightarrow> int k mod 65536 = int k" for k :: nat
  by simp

lemma scroll_up_page_step:
  assumes "page * w + col < 65536" "page * w + col < length bs" "page < 65536"
  shows "scroll_up_page w col (int page) (if c then 0x80 else 0, bs) =
     Some (if bit (bs ! (page * w + col)) 0 then 0x80 else 0,
           bs[page * w + col := shr1 (bs ! (page * w + col)) c])"
proof -
  have "nat ((int page mod 65536 * int w + int col) mod 65536) = page * w + col"
  proof -
    have "int page mod 65536 = int page" using assms(3) by (rule int_mod_small)
    moreover have "int page * int w + int col = int (page * w + col)" by simp
    moreover have "int (page * w + col) mod 65536 = int (page * w + col)"
      using assms(1) by (rule int_mod_small)
    ultimately have "(int page mod 65536 * int w + int col) mod 65536 = int (page * w + col)"
      by (simp only:)
    then show ?thesis by (simp only: nat_int)
  qed
  then show ?thesis
    using assms by (simp add: scroll_up_page_def Let_def bit0_test shr1_def)
qed

lemma page_index:
  assumes "col < (w :: nat)"
  shows "(q * w + col) mod w = col" "(q * w + col) div w = q"
    "i mod w = col \<and> i div w = q \<longleftrightarrow> i = q * w + col"
  using assms by (auto simp add: div_mult_mod_eq)

lemma page_index_less:
  assumes "col < (w :: nat)" "q < p"
  shows "q * w + col < w * p"
  using fb_index_less [of col w "8 * q" p] assms by (simp add: mult.commute)


lemma scroll_down_pages:
  assumes col: "col < w" and len: "length bs = w * p" and small: "w * p \<le> 65536"
  shows "\<exists>bs1. for_loop 0 p (scroll_down_page w col) (0, bs) =
       Some (if p \<noteq> 0 \<and> bit (bs ! ((p - 1) * w + col)) 7 then 0x01 else 0, bs1) \<and>
     length bs1 = length bs \<and>
     (\<forall>i < length bs. bs1 ! i =
        (if i mod w = col then shl1 (bs ! i) (i div w \<noteq> 0 \<and> bit (bs ! (i - w)) 7)
         else bs ! i))"
proof -
  define I where "I q st \<longleftrightarrow>
     fst st = (if q \<noteq> 0 \<and> bit (bs ! ((q - 1) * w + col)) 7 then 0x01 else 0) \<and>
     length (snd st) = length bs \<and>
     (\<forall>i < length bs. snd st ! i =
        (if i mod w = col \<and> i div w < q
         then shl1 (bs ! i) (i div w \<noteq> 0 \<and> bit (bs ! (i - w)) 7) else bs ! i))"
    for q and st :: "u8 \<times> u8 list"
  have start: "I 0 (0, bs)" by (simp add: I_def)
  have step: "\<exists>t'. scroll_down_page w col q t = Some t' \<and> I (Suc q) t'"
    if q: "q < p" and t: "I q t" for q t
  proof -
    obtain carry cur where st: "t = (carry, cur)" by (cases t)
    let ?idx = "q * w + col"
    let ?c = "q \<noteq> 0 \<and> bit (bs ! ((q - 1) * w + col)) 7"
    from t have carry: "carry = (if ?c then 0x01 else 0)"
      and lc: "length cur = length bs"
      and cur: "\<And>i. i < length bs \<Longrightarrow> cur ! i =
        (if i mod w = col \<and> i div w < q
         then shl1 (bs ! i) (i div w \<noteq> 0 \<and> bit (bs ! (i - w)) 7) else bs ! i)"
      by (simp_all add: I_def st)
    have il: "?idx < length bs" unfolding len using col q by (rule page_index_less)
    then have i16: "?idx < 65536" using len small by simp
    have ci: "cur ! ?idx = bs ! ?idx" using cur [OF il] page_index(2) [OF col, of q] by simp
    have r: "scroll_down_page w col q t =
        Some (if bit (bs ! ?idx) 7 then 0x01 else 0, cur[?idx := shl1 (bs ! ?idx) ?c])"
      unfolding st carry using scroll_down_page_step [of q w col cur ?c] i16 il lc ci by simp
    have prev: "?idx - w = (q - 1) * w + col" if "q \<noteq> 0"
      using that by (cases q) simp_all
    have "cur[?idx := shl1 (bs ! ?idx) ?c] ! i =
        (if i mod w = col \<and> i div w < Suc q
         then shl1 (bs ! i) (i div w \<noteq> 0 \<and> bit (bs ! (i - w)) 7) else bs ! i)"
      if i: "i < length bs" for i
    proof (cases "i = ?idx")
      case True
      have "(?c) = ((q * w + col) div w \<noteq> 0 \<and> bit (bs ! (?idx - w)) 7)"
        using page_index(2) [OF col, of q] prev by (cases "q = 0") simp_all
      then show ?thesis
        using True il lc page_index(1,2) [OF col, of q] by simp
    next
      case False
      then have "\<not> (i mod w = col \<and> i div w = q)" using page_index(3) [OF col, of i q] by simp
      then have "(i mod w = col \<and> i div w < Suc q) \<longleftrightarrow> (i mod w = col \<and> i div w < q)"
        by (auto simp add: less_Suc_eq)
      with False cur [OF i] show ?thesis by simp
    qed
    then have "I (Suc q) (if bit (bs ! ?idx) 7 then 0x01 else 0, cur[?idx := shl1 (bs ! ?idx) ?c])"
      using lc by (simp add: I_def)
    with r show ?thesis by blast
  qed
  from for_loop_rule [of I 0 "(0, bs)" p "scroll_down_page w col", OF start _ step]
  obtain s' where r: "for_loop 0 p (scroll_down_page w col) (0, bs) = Some s'" and i: "I p s'"
    by auto
  obtain carry bs1 where s': "s' = (carry, bs1)" by (cases s')
  have lt: "i div w < p" if "i < length bs" for i
    using that len by (metis less_mult_imp_div_less mult.commute)
  from i have "carry = (if p \<noteq> 0 \<and> bit (bs ! ((p - 1) * w + col)) 7 then 0x01 else 0)"
    and "length bs1 = length bs"
    and "\<forall>i < length bs. bs1 ! i =
        (if i mod w = col then shl1 (bs ! i) (i div w \<noteq> 0 \<and> bit (bs ! (i - w)) 7)
         else bs ! i)"
    using lt by (simp_all add: I_def s')
  with r s' show ?thesis by blast
qed


lemma for_down_rule:
  assumes "I p s" "- 1 \<le> p"
    and step: "\<And>q t. 0 \<le> q \<Longrightarrow> q \<le> p \<Longrightarrow> I q t \<Longrightarrow> \<exists>t'. body q t = Some t' \<and> I (q - 1) t'"
  shows "\<exists>s'. for_down p body s = Some s' \<and> I (- 1) s'"
  using assms
proof (induction "nat (p + 1)" arbitrary: p s)
  case 0
  then have "p = - 1" by simp
  with "0.prems"(1) show ?case by (simp add: for_down.simps)
next
  case (Suc m)
  then have ge: "0 \<le> p" by simp
  from Suc.prems(3) [OF ge order_refl Suc.prems(1)]
  obtain t where t: "body p s = Some t" "I (p - 1) t" by blast
  have "\<exists>s'. for_down (p - 1) body t = Some s' \<and> I (- 1) s'"
  proof (rule Suc.hyps(1))
    show "m = nat (p - 1 + 1)" using Suc.hyps(2) by simp
    show "I (p - 1) t" by (rule t(2))
    show "- 1 \<le> p - 1" using ge by simp
    show "\<exists>t'. body q u = Some t' \<and> I (q - 1) t'" if "0 \<le> q" "q \<le> p - 1" "I q u" for q u
      using Suc.prems(3) [of q u] that by simp
  qed
  with ge t(1) show ?case by (subst for_down.simps) simp
qed

lemma scroll_up_pages:
  assumes col: "col < w" and len: "length bs = w * p" and small: "w * p \<le> 65536"
  shows "\<exists>bs1. for_down (int p - 1) (scroll_up_page w col) (0, bs) =
       Some (if p \<noteq> 0 \<and> bit (bs ! col) 0 then 0x80 else 0, bs1) \<and>
     length bs1 = length bs \<and>
     (\<forall>i < length bs. bs1 ! i =
        (if i mod w = col then shr1 (bs ! i) (Suc (i div w) \<noteq> p \<and> bit (bs ! (i + w)) 0)
         else bs ! i))"
proof -
  define I where "I q st \<longleftrightarrow>
     fst st = (if q + 1 \<noteq> int p \<and> bit (bs ! (nat (q + 1) * w + col)) 0 then 0x80 else 0) \<and>
     length (snd st) = length bs \<and>
     (\<forall>i < length bs. snd st ! i =
        (if i mod w = col \<and> q < int (i div w)
         then shr1 (bs ! i) (Suc (i div w) \<noteq> p \<and> bit (bs ! (i + w)) 0) else bs ! i))"
    for q and st :: "u8 \<times> u8 list"
  have lt: "i div w < p" if "i < length bs" for i
    using that len by (metis less_mult_imp_div_less mult.commute)
  have "\<not> int p - 1 < int (i div w)" if "i < length bs" for i
    using lt [OF that] by simp
  then have start: "I (int p - 1) (0, bs)" by (simp add: I_def)
  have step: "\<exists>t'. scroll_up_page w col q t = Some t' \<and> I (q - 1) t'"
    if q0: "0 \<le> q" and qp: "q \<le> int p - 1" and t: "I q t" for q t
  proof -
    obtain carry cur where st: "t = (carry, cur)" by (cases t)
    obtain qn where qn: "q = int qn" using q0 by (metis nat_0_le)
    have qlt: "qn < p" using qp qn by simp
    let ?idx = "qn * w + col"
    let ?c = "Suc qn \<noteq> p \<and> bit (bs ! (Suc qn * w + col)) 0"
    from t have carry: "carry = (if ?c then 0x80 else 0)"
      and lc: "length cur = length bs"
      and cur: "\<And>i. i < length bs \<Longrightarrow> cur ! i =
        (if i mod w = col \<and> qn < i div w
         then shr1 (bs ! i) (Suc (i div w) \<noteq> p \<and> bit (bs ! (i + w)) 0) else bs ! i)"
      unfolding I_def st qn by (simp_all add: nat_add_distrib)
    have il: "?idx < length bs" unfolding len using col qlt by (rule page_index_less)
    then have i16: "?idx < 65536" using len small by simp
    have p16: "qn < 65536"
    proof -
      have "1 \<le> w" using col by simp
      then have "qn * 1 \<le> qn * w" by (rule mult_le_mono2)
      then have "qn \<le> qn * w + col" by (simp only: mult_1_right trans_le_add1)
      with i16 show ?thesis by linarith
    qed
    have ci: "cur ! ?idx = bs ! ?idx" using cur [OF il] page_index(2) [OF col, of qn] by simp
    have r: "scroll_up_page w col q t =
        Some (if bit (bs ! ?idx) 0 then 0x80 else 0, cur[?idx := shr1 (bs ! ?idx) ?c])"
      unfolding st carry qn using scroll_up_page_step [of qn w col cur ?c] i16 il lc ci p16
      by simp
    have "cur[?idx := shr1 (bs ! ?idx) ?c] ! i =
        (if i mod w = col \<and> q - 1 < int (i div w)
         then shr1 (bs ! i) (Suc (i div w) \<noteq> p \<and> bit (bs ! (i + w)) 0) else bs ! i)"
      if i: "i < length bs" for i
    proof (cases "i = ?idx")
      case True
      have "?idx + w = Suc qn * w + col" by simp
      then show ?thesis
        using True il lc page_index(1,2) [OF col, of qn] qn by (simp add: ac_simps)
    next
      case False
      then have "\<not> (i mod w = col \<and> i div w = qn)" using page_index(3) [OF col, of i qn] by simp
      then have "(i mod w = col \<and> q - 1 < int (i div w)) \<longleftrightarrow> (i mod w = col \<and> qn < i div w)"
        unfolding qn by auto
      with False cur [OF i] show ?thesis by simp
    qed
    moreover have "nat (q - 1 + 1) = qn" "q - 1 + 1 \<noteq> int p"
      using qn qlt by simp_all
    ultimately have "I (q - 1) (if bit (bs ! ?idx) 0 then 0x80 else 0, cur[?idx := shr1 (bs ! ?idx) ?c])"
      using lc unfolding I_def by simp
    with r show ?thesis by blast
  qed
  from for_down_rule [of I "int p - 1" "(0, bs)" "scroll_up_page w col", OF start _ step]
  obtain s' where r: "for_down (int p - 1) (scroll_up_page w col) (0, bs) = Some s'"
    and i: "I (- 1) s'"
    by auto
  obtain carry bs1 where s': "s' = (carry, bs1)" by (cases s')
  from i have "carry = (if p \<noteq> 0 \<and> bit (bs ! col) 0 then 0x80 else 0)"
    and "length bs1 = length bs"
    and "\<forall>i < length bs. bs1 ! i =
        (if i mod w = col then shr1 (bs ! i) (Suc (i div w) \<noteq> p \<and> bit (bs ! (i + w)) 0)
         else bs ! i)"
    by (auto simp add: I_def s')
  with r s' show ?thesis by blast
qed

lemma rot_index:
  fixes i w p :: nat
  assumes i: "i < w * p"
  shows "w \<le> i \<Longrightarrow> (i + w * p - w) mod (w * p) = i - w"
    and "i < w \<Longrightarrow> (i + w * p - w) mod (w * p) = (p - 1) * w + i"
    and "Suc (i div w) \<noteq> p \<Longrightarrow> (i + w) mod (w * p) = i + w"
    and "Suc (i div w) = p \<Longrightarrow> (i + w) mod (w * p) = i mod w"
    and "((i + w * p - w) mod (w * p)) mod w = i mod w"
    and "((i + w) mod (w * p)) mod w = i mod w"
proof -
  have p: "0 < p" "0 < w" using i by (cases p, simp_all) (cases w, simp_all)
  have wp: "w \<le> w * p" using p by simp
  show a: "(i + w * p - w) mod (w * p) = i - w" if "w \<le> i"
  proof -
    have e: "i + w * p - w = (i - w) + w * p" using that by simp
    have lt: "i - w < w * p" using i by simp
    have "(i + w * p - w) mod (w * p) = ((i - w) + w * p) mod (w * p)" by (simp only: e)
    also have "\<dots> = (i - w) mod (w * p)" by (rule mod_add_self2)
    also have "\<dots> = i - w" using lt by (rule mod_less)
    finally show ?thesis .
  qed
  show b: "(i + w * p - w) mod (w * p) = (p - 1) * w + i" if "i < w"
  proof -
    have e: "i + w * p - w = (p - 1) * w + i" using p wp by (simp add: algebra_simps)
    have "(p - 1) * w + i < w * p"
      using page_index_less [OF that, of "p - 1" p] p by simp
    then have "((p - 1) * w + i) mod (w * p) = (p - 1) * w + i" by (rule mod_less)
    then show ?thesis by (simp only: e)
  qed
  have d: "i div w < p" using i by (metis less_mult_imp_div_less mult.commute)
  show c: "(i + w) mod (w * p) = i + w" if "Suc (i div w) \<noteq> p"
  proof -
    from that d have "Suc (i div w) < p" by simp
    from page_index_less [OF mod_less_divisor [OF p(2)] this, of i]
    have "i + w < w * p" by (simp add: algebra_simps)
    then show ?thesis by (rule mod_less)
  qed
  show e: "(i + w) mod (w * p) = i mod w" if "Suc (i div w) = p"
  proof -
    have "i = (p - 1) * w + i mod w" using that by (metis diff_Suc_1 div_mult_mod_eq)
    then have "i + w = (p - 1) * w + w + i mod w" by simp
    also have "(p - 1) * w + w = w * p" using p by (cases p) simp_all
    finally have f: "i + w = i mod w + w * p" by simp
    have lt: "i mod w < w * p" using p wp mod_less_divisor [OF p(2), of i] by linarith
    have "(i + w) mod (w * p) = (i mod w + w * p) mod (w * p)" by (simp only: f)
    also have "\<dots> = (i mod w) mod (w * p)" by (rule mod_add_self2)
    also have "\<dots> = i mod w" using lt by (rule mod_less)
    finally show ?thesis .
  qed
  show "((i + w * p - w) mod (w * p)) mod w = i mod w"
  proof (cases "w \<le> i")
    case True
    then show ?thesis unfolding a [OF True] by (simp add: le_mod_geq)
  next
    case False
    then have "i < w" by simp
    then show ?thesis unfolding b [OF \<open>i < w\<close>] by simp
  qed
  show "((i + w) mod (w * p)) mod w = i mod w"
    by (cases "Suc (i div w) = p") (simp_all add: c e)
qed


lemma scroll_row_col_down:
  assumes b: "buff d = Some (c, cur)" and len: "length cur = w * p"
    and col: "col < w" and p: "0 < p" and small: "w * p \<le> 65536"
  shows "\<exists>cur'. scroll_row_col True w p col d = Some (d\<lparr>buff := Some (c, cur')\<rparr>) \<and>
     length cur' = length cur \<and>
     (\<forall>i < length cur. cur' ! i =
        (if i mod w = col then scroll_down_byte w cur i else cur ! i))"
proof -
  let ?carry = "bit (cur ! ((p - 1) * w + col)) 7"
  from scroll_down_pages [OF col len small]
  obtain bs1 where r: "for_loop 0 p (scroll_down_page w col) (0, cur) =
       Some (if ?carry then 0x01 else 0, bs1)"
    and l1: "length bs1 = length cur"
    and n1: "\<And>i. i < length cur \<Longrightarrow> bs1 ! i =
        (if i mod w = col then shl1 (cur ! i) (i div w \<noteq> 0 \<and> bit (cur ! (i - w)) 7)
         else cur ! i)"
    using p by auto
  have cl: "col < length cur" unfolding len using col p
    by (metis less_le_trans mult.right_neutral mult_le_mono2 Suc_leI One_nat_def)
  have c0: "bs1 ! col = shl1 (cur ! col) False" using n1 [OF cl] col by simp
  let ?cur' = "bs1[col := shl1 (cur ! col) ?carry]"
  have res: "scroll_row_col True w p col d = Some (d\<lparr>buff := Some (c, ?cur')\<rparr>)"
    unfolding scroll_row_col_def using b r cl l1 c0 wrap_low [of "cur ! col" ?carry]
    by (simp add: Let_def)
  have "?cur' ! i = (if i mod w = col then scroll_down_byte w cur i else cur ! i)"
    if i: "i < length cur" for i
  proof (cases "i = col")
    case True
    have "(col + w * p - w) mod (w * p) = (p - 1) * w + col"
      using rot_index(2) [of col w p] cl len col by simp
    then show ?thesis
      using True l1 cl col by (simp add: scroll_down_byte_def len)
  next
    case False
    show ?thesis
    proof (cases "i mod w = col")
      case m: True
      with False col have ge: "w \<le> i" by (metis mod_less not_le)
      then have dv: "i div w \<noteq> 0" using col by (simp add: div_eq_0_iff)
      have "(i + w * p - w) mod (w * p) = i - w"
        using rot_index(1) [of i w p] i len ge by simp
      then show ?thesis
        using False m dv n1 [OF i] by (simp add: scroll_down_byte_def len)
    next
      case m: False
      with False n1 [OF i] show ?thesis by simp
    qed
  qed
  with res l1 show ?thesis by (intro exI [of _ ?cur']) simp
qed

lemma scroll_row_col_up:
  assumes b: "buff d = Some (c, cur)" and len: "length cur = w * p"
    and col: "col < w" and p: "0 < p" and small: "w * p \<le> 65536"
  shows "\<exists>cur'. scroll_row_col False w p col d = Some (d\<lparr>buff := Some (c, cur')\<rparr>) \<and>
     length cur' = length cur \<and>
     (\<forall>i < length cur. cur' ! i =
        (if i mod w = col then scroll_up_byte w cur i else cur ! i))"
proof -
  let ?carry = "bit (cur ! col) 0"
  let ?last = "(p - 1) * w + col"
  from scroll_up_pages [OF col len small]
  obtain bs1 where r: "for_down (int p - 1) (scroll_up_page w col) (0, cur) =
       Some (if ?carry then 0x80 else 0, bs1)"
    and l1: "length bs1 = length cur"
    and n1: "\<And>i. i < length cur \<Longrightarrow> bs1 ! i =
        (if i mod w = col then shr1 (cur ! i) (Suc (i div w) \<noteq> p \<and> bit (cur ! (i + w)) 0)
         else cur ! i)"
    using p by auto
  have ll: "?last < length cur" unfolding len using page_index_less [OF col, of "p - 1" p] p by simp
  have li: "nat (((int p - 1) * int w + int col) mod 65536) = ?last"
  proof -
    have e: "int p - 1 = int (p - 1)" using p by simp
    have "(int p - 1) * int w + int col = int ?last"
      by (simp only: e of_nat_add of_nat_mult)
    moreover have "int ?last mod 65536 = int ?last"
      using ll len small by (intro int_mod_small) simp
    ultimately have "((int p - 1) * int w + int col) mod 65536 = int ?last" by (simp only:)
    then show ?thesis by (simp only: nat_int)
  qed
  have ld: "?last mod w = col" "Suc (?last div w) = p"
    using page_index(1,2) [OF col, of "p - 1"] p by simp_all
  have c0: "bs1 ! ?last = shr1 (cur ! ?last) False" using n1 [OF ll] ld by simp
  let ?cur' = "bs1[?last := shr1 (cur ! ?last) ?carry]"
  have res: "scroll_row_col False w p col d = Some (d\<lparr>buff := Some (c, ?cur')\<rparr>)"
    unfolding scroll_row_col_def li
    using b r ll l1 c0 wrap_high [of "cur ! ?last" ?carry]
    by (simp add: Let_def)
  have "?cur' ! i = (if i mod w = col then scroll_up_byte w cur i else cur ! i)"
    if i: "i < length cur" for i
  proof (cases "i = ?last")
    case True
    have "(?last + w) mod (w * p) = ?last mod w"
      using rot_index(4) [of ?last w p] ll len ld(2) by simp
    then show ?thesis
      using True l1 ll ld(1) by (simp add: scroll_up_byte_def len)
  next
    case False
    show ?thesis
    proof (cases "i mod w = col")
      case m: True
      have np: "Suc (i div w) \<noteq> p"
      proof
        assume "Suc (i div w) = p"
        then have "i div w = p - 1" by simp
        with m have "i = ?last" using page_index(3) [OF col, of i "p - 1"] by simp
        with False show False ..
      qed
      have "(i + w) mod (w * p) = i + w"
        using rot_index(3) [of i w p] i len np by simp
      then show ?thesis
        using False m np n1 [OF i] by (simp add: scroll_up_byte_def len)
    next
      case m: False
      with False n1 [OF i] show ?thesis by simp
    qed
  qed
  with res l1 show ?thesis by (intro exI [of _ ?cur']) simp
qed


lemma scroll_row_col_any:
  assumes b: "buff d = Some (c, cur)" and len: "length cur = w * p"
    and col: "col < w" and p: "0 < p" and small: "w * p \<le> 65536"
  shows "\<exists>cur'. scroll_row_col down w p col d = Some (d\<lparr>buff := Some (c, cur')\<rparr>) \<and>
     length cur' = length cur \<and>
     (\<forall>i < length cur. cur' ! i =
        (if i mod w = col then scroll_byte down w cur i else cur ! i))"
proof (cases down)
  case True
  have e: "scroll_byte True w cur = scroll_down_byte w cur"
    by (simp add: fun_eq_iff scroll_byte_def)
  from True have dn: "down = True" by simp
  show ?thesis unfolding dn e by (rule scroll_row_col_down [OF assms])
next
  case False
  have e: "scroll_byte False w cur = scroll_up_byte w cur"
    by (simp add: fun_eq_iff scroll_byte_def)
  from False have dn: "down = False" by simp
  show ?thesis unfolding dn e by (rule scroll_row_col_up [OF assms])
qed

lemma scroll_byte_column:
  assumes len: "length cur = w * p" "length bs = w * p" and i: "i < w * p"
    and same: "\<And>j. j < w * p \<Longrightarrow> j mod w = i mod w \<Longrightarrow> cur ! j = bs ! j"
  shows "scroll_byte down w cur i = scroll_byte down w bs i"
proof -
  have n: "0 < w * p" using i by linarith
  have a: "cur ! ((i + w * p - w) mod (w * p)) = bs ! ((i + w * p - w) mod (w * p))"
    using rot_index(5) [OF i] n by (intro same) simp_all
  have b: "cur ! ((i + w) mod (w * p)) = bs ! ((i + w) mod (w * p))"
    using rot_index(6) [OF i] n by (intro same) simp_all
  have c: "cur ! i = bs ! i" using i by (intro same) simp_all
  show ?thesis
    by (simp add: scroll_byte_def scroll_down_byte_def scroll_up_byte_def len a b c)
qed

lemma scroll_row_vert_result:
  assumes inv: "fb_inv dev" and b: "buff dev = Some (c, bs)"
    and p: "0 < unat (pages dev)" and small: "buff_size dev \<le> 65536"
  shows "ssd1306_scroll_row_vert dev down =
     Some (dev\<lparr>buff := Some (c, scrolled down (unat (width dev)) bs)\<rparr>)"
proof -
  let ?w = "unat (width dev)" and ?p = "unat (pages dev)"
  from inv b have len: "length bs = ?w * ?p" and h: "unat (height dev) = 8 * ?p"
    and sz: "buff_size dev = length bs"
    by (simp_all add: fb_inv_def)
  have small': "?w * ?p \<le> 65536" using small sz len by simp
  have pg: "unat (height dev) div 8 = ?p" using h by simp
  define J where "J k d \<longleftrightarrow> (\<exists>cur. d = dev\<lparr>buff := Some (c, cur)\<rparr> \<and> length cur = length bs \<and>
     (\<forall>i < length bs. cur ! i = (if i mod ?w < k then scroll_byte down ?w bs i else bs ! i)))"
    for k d
  have start: "J 0 dev"
    unfolding J_def using b by (intro exI [of _ bs]) simp
  have step: "\<exists>t'. scroll_row_col down ?w ?p k t = Some t' \<and> J (Suc k) t'"
    if k: "k < ?w" and t: "J k t" for k t
  proof -
    from t obtain cur where t': "t = dev\<lparr>buff := Some (c, cur)\<rparr>"
      and lc: "length cur = length bs"
      and cur: "\<And>i. i < length bs \<Longrightarrow>
        cur ! i = (if i mod ?w < k then scroll_byte down ?w bs i else bs ! i)"
      unfolding J_def by blast
    have bt: "buff t = Some (c, cur)" unfolding t' by simp
    from scroll_row_col_any [OF bt _ k p small', of down] lc len
    obtain cur' where r: "scroll_row_col down ?w ?p k t = Some (t\<lparr>buff := Some (c, cur')\<rparr>)"
      and l': "length cur' = length bs"
      and n': "\<And>i. i < length bs \<Longrightarrow>
        cur' ! i = (if i mod ?w = k then scroll_byte down ?w cur i else cur ! i)"
      by auto
    have "cur' ! i = (if i mod ?w < Suc k then scroll_byte down ?w bs i else bs ! i)"
      if i: "i < length bs" for i
    proof (cases "i mod ?w = k")
      case True
      have "scroll_byte down ?w cur i = scroll_byte down ?w bs i"
      proof (rule scroll_byte_column [of cur ?w ?p bs i])
        show "cur ! j = bs ! j" if "j < ?w * ?p" "j mod ?w = i mod ?w" for j
          using cur [of j] that True len by simp
      qed (use lc len i in simp_all)
      with True n' [OF i] show ?thesis by simp
    next
      case False
      then have "(i mod ?w < Suc k) = (i mod ?w < k)" by (auto simp add: less_Suc_eq)
      with False n' [OF i] cur [OF i] show ?thesis by simp
    qed
    then have "J (Suc k) (t\<lparr>buff := Some (c, cur')\<rparr>)"
      unfolding J_def t' using l' by (intro exI [of _ cur']) simp
    with r show ?thesis by blast
  qed
  from for_loop_rule [of J 0 dev ?w "scroll_row_col down ?w ?p", OF start _ step]
  obtain d' where r: "for_loop 0 ?w (scroll_row_col down ?w ?p) dev = Some d'" and j: "J ?w d'"
    by auto
  from j obtain cur where d': "d' = dev\<lparr>buff := Some (c, cur)\<rparr>"
    and lc: "length cur = length bs"
    and cur: "\<And>i. i < length bs \<Longrightarrow>
        cur ! i = (if i mod ?w < ?w then scroll_byte down ?w bs i else bs ! i)"
    unfolding J_def by blast
  have "cur = scrolled down ?w bs"
  proof (rule nth_equalityI)
    show "length cur = length (scrolled down ?w bs)" using lc by (simp add: scrolled_def)
    show "cur ! i = scrolled down ?w bs ! i" if "i < length cur" for i
    proof -
      have "i < ?w * ?p" using that lc len by simp
      then have "0 < ?w" by (cases "?w = 0") simp_all
      then have "i mod ?w < ?w" by simp
      with cur [of i] that lc show ?thesis by (simp add: scrolled_def)
    qed
  qed
  with r d' show ?thesis
    unfolding ssd1306_scroll_row_vert_def Let_def pg by simp
qed

lemma rot_inverse:
  fixes i w n :: nat
  assumes "i < n" "w \<le> n"
  shows "((i + w) mod n + n - w) mod n = i" "((i + n - w) mod n + w) mod n = i"
proof -
  have "((i + w) mod n + n - w) mod n = ((i + w) mod n + (n - w)) mod n"
    using assms(2) by simp
  also have "\<dots> = (i + w + (n - w)) mod n" by (rule mod_add_left_eq)
  also have "i + w + (n - w) = i + n" using assms(2) by simp
  also have "(i + n) mod n = i" using assms(1) by simp
  finally show "((i + w) mod n + n - w) mod n = i" .
  have "((i + n - w) mod n + w) mod n = (i + n - w + w) mod n" by (rule mod_add_left_eq)
  also have "i + n - w + w = i + n" using assms(2) by simp
  also have "(i + n) mod n = i" using assms(1) by simp
  finally show "((i + n - w) mod n + w) mod n = i" .
qed

lemma length_scrolled: "length (scrolled down w bs) = length bs"
  by (simp add: scrolled_def)

lemma nth_scrolled:
  "i < length bs \<Longrightarrow> scrolled down w bs ! i = scroll_byte down w bs i"
  by (simp add: scrolled_def)

lemma scrolled_inverse:
  assumes len: "length bs = w * p" and p: "0 < p"
  shows "scrolled (\<not> down) w (scrolled down w bs) = bs"
proof (rule nth_equalityI)
  show "length (scrolled (\<not> down) w (scrolled down w bs)) = length bs"
    by (simp add: length_scrolled)
  fix i
  assume "i < length (scrolled (\<not> down) w (scrolled down w bs))"
  then have i: "i < length bs" by (simp add: length_scrolled)
  let ?n = "length bs"
  have wn: "w \<le> ?n" unfolding len using p by simp
  have n: "0 < ?n" using i by linarith
  show "scrolled (\<not> down) w (scrolled down w bs) ! i = bs ! i"
  proof (cases down)
    case True
    let ?j = "(i + w) mod ?n"
    have j: "?j < ?n" using n by simp
    have "scroll_byte True w bs ?j =
        shl1 (bs ! ?j) (bit (bs ! i) 7)"
      using rot_inverse(1) [OF i wn] by (simp add: scroll_byte_def scroll_down_byte_def)
    then have "bit (scrolled True w bs ! ?j) 0 = bit (bs ! i) 7"
      using j by (simp add: nth_scrolled shl1_low)
    then show ?thesis
      using True i
      by (simp add: nth_scrolled length_scrolled scroll_byte_def scroll_up_byte_def
          scroll_down_byte_def shr1_shl1)
  next
    case False
    let ?j = "(i + ?n - w) mod ?n"
    have j: "?j < ?n" using n by simp
    have "scroll_byte False w bs ?j =
        shr1 (bs ! ?j) (bit (bs ! i) 0)"
      using rot_inverse(2) [OF i wn] by (simp add: scroll_byte_def scroll_up_byte_def)
    then have "bit (scrolled False w bs ! ?j) 7 = bit (bs ! i) 0"
      using j by (simp add: nth_scrolled shr1_high)
    then show ?thesis
      using False i
      by (simp add: nth_scrolled length_scrolled scroll_byte_def scroll_up_byte_def
          scroll_down_byte_def shl1_shr1)
  qed
qed


lemma scroll_row_vert_step:
  assumes inv: "fb_inv dev" and p: "0 < unat (pages dev)" and small: "buff_size dev \<le> 65536"
  shows "\<exists>d1. ssd1306_scroll_row_vert dev down = Some d1 \<and>
     fb_inv d1 \<and> 0 < unat (pages d1) \<and> buff_size d1 \<le> 65536 \<and>
     ssd1306_scroll_row_vert d1 (\<not> down) = Some dev"
proof -
  from inv obtain c bs where b: "buff dev = Some (c, bs)"
    by (auto simp add: fb_inv_def split: option.splits)
  let ?w = "unat (width dev)"
  let ?d1 = "dev\<lparr>buff := Some (c, scrolled down ?w bs)\<rparr>"
  from inv b have len: "length bs = ?w * unat (pages dev)" by (simp add: fb_inv_def)
  have r1: "ssd1306_scroll_row_vert dev down = Some ?d1"
    using inv b p small by (rule scroll_row_vert_result)
  have inv1: "fb_inv ?d1" using inv b by (simp add: fb_inv_def length_scrolled)
  have b1: "buff ?d1 = Some (c, scrolled down ?w bs)" by simp
  have p1: "0 < unat (pages ?d1)" "buff_size ?d1 \<le> 65536" using p small by simp_all
  have "ssd1306_scroll_row_vert ?d1 (\<not> down) =
      Some (?d1\<lparr>buff := Some (c, scrolled (\<not> down) (unat (width ?d1)) (scrolled down ?w bs))\<rparr>)"
    using inv1 b1 p1 by (rule scroll_row_vert_result)
  also have "scrolled (\<not> down) (unat (width ?d1)) (scrolled down ?w bs) = bs"
    using scrolled_inverse [OF len p, of down] by simp
  also have "?d1\<lparr>buff := Some (c, bs)\<rparr> = dev" using b by simp
  finally have r2: "ssd1306_scroll_row_vert ?d1 (\<not> down) = Some dev" .
  from r1 inv1 p1 r2 show ?thesis by blast
qed

lemma scroll_row_vert_n_snoc:
  "scroll_row_vert_n (Suc n) down dev =
     Option.bind (scroll_row_vert_n n down dev) (\<lambda>d. ssd1306_scroll_row_vert d down)"
proof (induction n arbitrary: dev)
  case 0
  show ?case by (cases "ssd1306_scroll_row_vert dev down") simp_all
next
  case (Suc n)
  have "scroll_row_vert_n (Suc (Suc n)) down dev =
      Option.bind (ssd1306_scroll_row_vert dev down) (scroll_row_vert_n (Suc n) down)"
    by simp
  also have "\<dots> = Option.bind (ssd1306_scroll_row_vert dev down)
      (\<lambda>e. Option.bind (scroll_row_vert_n n down e) (\<lambda>d. ssd1306_scroll_row_vert d down))"
  proof -
    have "scroll_row_vert_n (Suc n) down =
        (\<lambda>e. Option.bind (scroll_row_vert_n n down e) (\<lambda>d. ssd1306_scroll_row_vert d down))"
      by (rule ext) (rule Suc.IH)
    then show ?thesis by (simp only:)
  qed
  also have "\<dots> = Option.bind (scroll_row_vert_n (Suc n) down dev)
      (\<lambda>d. ssd1306_scroll_row_vert d down)"
    by (cases "ssd1306_scroll_row_vert dev down") simp_all
  finally show ?case .
qed

lemma scroll_row_vert_n_round_trip:
  assumes "fb_inv dev" "0 < unat (pages dev)" "buff_size dev \<le> 65536"
  shows "Option.bind (scroll_row_vert_n n down dev) (scroll_row_vert_n n (\<not> down)) = Some dev"
  using assms
proof (induction n arbitrary: dev)
  case 0
  show ?case by simp
next
  case (Suc n)
  from scroll_row_vert_step [OF Suc.prems, of down]
  obtain d1 where r1: "ssd1306_scroll_row_vert dev down = Some d1"
    and pre1: "fb_inv d1" "0 < unat (pages d1)" "buff_size d1 \<le> 65536"
    and r2: "ssd1306_scroll_row_vert d1 (\<not> down) = Some dev"
    by blast
  have ih: "Option.bind (scroll_row_vert_n n down d1) (scroll_row_vert_n n (\<not> down)) = Some d1"
    using pre1 by (rule Suc.IH)
  have "Option.bind (scroll_row_vert_n (Suc n) down dev) (scroll_row_vert_n (Suc n) (\<not> down)) =
      Option.bind (scroll_row_vert_n n down d1) (scroll_row_vert_n (Suc n) (\<not> down))"
    using r1 by simp
  also have "\<dots> = Option.bind (scroll_row_vert_n n down d1)
      (\<lambda>e. Option.bind (scroll_row_vert_n n (\<not> down) e) (\<lambda>d. ssd1306_scroll_row_vert d (\<not> down)))"
  proof -
    have "scroll_row_vert_n (Suc n) (\<not> down) =
        (\<lambda>e. Option.bind (scroll_row_vert_n n (\<not> down) e)
           (\<lambda>d. ssd1306_scroll_row_vert d (\<not> down)))"
      by (rule ext) (rule scroll_row_vert_n_snoc)
    then show ?thesis by (simp only:)
  qed
  also have "\<dots> = Option.bind
      (Option.bind (scroll_row_vert_n n down d1) (scroll_row_vert_n n (\<not> down)))
      (\<lambda>d. ssd1306_scroll_row_vert d (\<not> down))"
    by (cases "scroll_row_vert_n n down d1") simp_all
  also have "\<dots> = Some dev" unfolding ih using r2 by simp
  finally show ?case .
qed

text \<open>
  Claim C3. On a device that satisfies the frame buffer invariant, with at least one page
  and at most 65536 bytes of buffer (the range of the 16-bit index), \<open>n\<close> calls of
  \<open>ssd1306_scroll_row_vert\<close> in one direction followed by \<open>n\<close> calls in the other
  direction all return, and leave the device, frame buffer included, as it was.
\<close>

theorem scroll_row_vert_round_trip:
  "fb_inv dev \<and> 0 < unat (pages dev) \<and> buff_size dev \<le> 65536 \<longrightarrow>
     Option.bind (scroll_row_vert_n n down dev) (scroll_row_vert_n n (\<not> down)) = Some dev"
  using scroll_row_vert_n_round_trip [of dev n down] by simp

theorem scroll_row_vert_round_trip_witness:
  "fb_inv \<lparr>width = 2, height = 16, pages = 2, i2c_addr = 0x3C, i2c_inst = 0,
      external_vcc = False, buff = Some (0x40, [0x81, 0x7E, 0x03, 0xC0]), buff_size = 4\<rparr> \<and>
   Option.bind
     (scroll_row_vert_n 3 True \<lparr>width = 2, height = 16, pages = 2, i2c_addr = 0x3C, i2c_inst = 0,
        external_vcc = False, buff = Some (0x40, [0x81, 0x7E, 0x03, 0xC0]), buff_size = 4\<rparr>)
     (scroll_row_vert_n 3 False) =
   Some \<lparr>width = 2, height = 16, pages = 2, i2c_addr = 0x3C, i2c_inst = 0,
      external_vcc = False, buff = Some (0x40, [0x81, 0x7E, 0x03, 0xC0]), buff_size = 4\<rparr>"
proof -
  let ?d = "\<lparr>width = 2, height = 16, pages = 2, i2c_addr = 0x3C, i2c_inst = 0,
      external_vcc = False, buff = Some (0x40, [0x81, 0x7E, 0x03, 0xC0 :: u8]), buff_size = 4\<rparr>"
  have h: "fb_inv ?d \<and> 0 < unat (pages ?d) \<and> buff_size ?d \<le> 65536"
    by (simp add: fb_inv_def)
  from scroll_row_vert_round_trip [of ?d 3 True, THEN mp, OF h] h
  show ?thesis by simp
qed

lemma sum_list_rotate: "sum_list (map g (rotate k xs)) = sum_list (map (g :: 'a \<Rightarrow> nat) xs)"
proof -
  let ?m = "k mod length xs"
  have "sum_list (map g (rotate k xs)) = sum_list (map g (drop ?m xs @ take ?m xs))"
    by (simp only: rotate_drop_take)
  also have "\<dots> = sum_list (map g (take ?m xs)) + sum_list (map g (drop ?m xs))"
    by simp
  also have "\<dots> = sum_list (map g (take ?m xs @ drop ?m xs))"
    by (simp only: map_append sum_list_append)
  also have "\<dots> = sum_list (map g xs)" by (simp only: append_take_drop_id)
  finally show ?thesis .
qed

lemma sum_rotated_index:
  fixes g :: "'a \<Rightarrow> nat"
  shows "(\<Sum>i\<leftarrow>[0..<length xs]. g (xs ! ((i + k) mod length xs))) = (\<Sum>i\<leftarrow>[0..<length xs]. g (xs ! i))"
proof -
  have "map (\<lambda>i. xs ! ((i + k) mod length xs)) [0..<length xs] = rotate k xs"
    by (rule nth_equalityI) (simp_all add: nth_rotate add.commute)
  then have "(\<Sum>i\<leftarrow>[0..<length xs]. g (xs ! ((i + k) mod length xs))) = sum_list (map g (rotate k xs))"
    by (simp only: map_map [symmetric, of g "\<lambda>i. xs ! ((i + k) mod length xs)", unfolded comp_def])
  also have "\<dots> = sum_list (map g xs)" by (rule sum_list_rotate)
  also have "\<dots> = (\<Sum>i\<leftarrow>[0..<length xs]. g (xs ! i))"
    by (simp only: map_map [symmetric, of g "\<lambda>i. xs ! i", unfolded comp_def] map_nth)
  finally show ?thesis .
qed

lemma popcount_scroll_byte:
  assumes "w \<le> length bs"
  shows "popcount (scroll_byte down w bs i) +
       of_bool (bit (bs ! i) (if down then 7 else 0)) =
     popcount (bs ! i) +
       of_bool (bit (bs ! ((i + (if down then length bs - w else w)) mod length bs))
         (if down then 7 else 0))"
proof (cases down)
  case True
  have "i + length bs - w = i + (length bs - w)" using assms by simp
  with True show ?thesis
    using popcount_shl1 [of "bs ! i" "bit (bs ! ((i + length bs - w) mod length bs)) 7"]
    by (simp add: scroll_byte_def scroll_down_byte_def)
next
  case False
  then show ?thesis
    using popcount_shr1 [of "bs ! i" "bit (bs ! ((i + w) mod length bs)) 0"]
    by (simp add: scroll_byte_def scroll_up_byte_def)
qed

lemma popcount_scrolled:
  assumes "w \<le> length bs"
  shows "sum_list (map popcount (scrolled down w bs)) = sum_list (map popcount bs)"
proof -
  let ?n = "length bs"
  let ?b = "if down then 7 else 0 :: nat"
  let ?k = "if down then ?n - w else w"
  let ?g = "\<lambda>b :: u8. of_bool (bit b ?b) :: nat"
  have "(\<Sum>i\<leftarrow>[0..<?n]. popcount (scroll_byte down w bs i)) + (\<Sum>i\<leftarrow>[0..<?n]. ?g (bs ! i)) =
      (\<Sum>i\<leftarrow>[0..<?n]. popcount (scroll_byte down w bs i) + ?g (bs ! i))"
    by (simp only: sum_list_addf)
  also have "\<dots> = (\<Sum>i\<leftarrow>[0..<?n]. popcount (bs ! i) + ?g (bs ! ((i + ?k) mod ?n)))"
    by (simp only: popcount_scroll_byte [OF assms])
  also have "\<dots> = (\<Sum>i\<leftarrow>[0..<?n]. popcount (bs ! i)) + (\<Sum>i\<leftarrow>[0..<?n]. ?g (bs ! ((i + ?k) mod ?n)))"
    by (simp only: sum_list_addf)
  also have "(\<Sum>i\<leftarrow>[0..<?n]. ?g (bs ! ((i + ?k) mod ?n))) = (\<Sum>i\<leftarrow>[0..<?n]. ?g (bs ! i))"
    by (rule sum_rotated_index)
  finally have "(\<Sum>i\<leftarrow>[0..<?n]. popcount (scroll_byte down w bs i)) =
      (\<Sum>i\<leftarrow>[0..<?n]. popcount (bs ! i))"
    by simp
  moreover have "sum_list (map popcount (scrolled down w bs)) =
      (\<Sum>i\<leftarrow>[0..<?n]. popcount (scroll_byte down w bs i))"
    by (simp add: scrolled_def comp_def)
  moreover have "(\<Sum>i\<leftarrow>[0..<?n]. popcount (bs ! i)) = sum_list (map popcount bs)"
    by (simp only: map_map [symmetric, of popcount "\<lambda>i. bs ! i", unfolded comp_def] map_nth)
  ultimately show ?thesis by simp
qed

text \<open>
  Claim C4. On a device that satisfies the frame buffer invariant, with at least one page
  and at most 65536 bytes of buffer, one call of \<open>ssd1306_scroll_row_vert\<close> in either
  direction returns and leaves the number of set bits of the frame buffer as it was.
\<close>

theorem scroll_row_vert_keeps_bit_count:
  "fb_inv dev \<and> 0 < unat (pages dev) \<and> buff_size dev \<le> 65536 \<longrightarrow>
     (\<exists>d1. ssd1306_scroll_row_vert dev down = Some d1 \<and> set_bit_count d1 = set_bit_count dev)"
proof
  assume a: "fb_inv dev \<and> 0 < unat (pages dev) \<and> buff_size dev \<le> 65536"
  then obtain c bs where b: "buff dev = Some (c, bs)"
    by (auto simp add: fb_inv_def split: option.splits)
  let ?w = "unat (width dev)"
  from a b have len: "length bs = ?w * unat (pages dev)" by (simp add: fb_inv_def)
  have w: "?w \<le> length bs" unfolding len using a by simp
  have r: "ssd1306_scroll_row_vert dev down = Some (dev\<lparr>buff := Some (c, scrolled down ?w bs)\<rparr>)"
    using a b by (intro scroll_row_vert_result) simp_all
  have "set_bit_count (dev\<lparr>buff := Some (c, scrolled down ?w bs)\<rparr>) = set_bit_count dev"
    using popcount_scrolled [OF w, of down] b by (simp add: set_bit_count_def fb_bytes_def)
  with r show "\<exists>d1. ssd1306_scroll_row_vert dev down = Some d1 \<and> set_bit_count d1 = set_bit_count dev"
    by blast
qed

theorem scroll_row_vert_keeps_bit_count_witness:
  "fb_inv \<lparr>width = 2, height = 16, pages = 2, i2c_addr = 0x3C, i2c_inst = 0,
      external_vcc = False, buff = Some (0x40, [0x81, 0x7E, 0x03, 0xC0]), buff_size = 4\<rparr> \<and>
   (\<exists>d1. ssd1306_scroll_row_vert \<lparr>width = 2, height = 16, pages = 2, i2c_addr = 0x3C, i2c_inst = 0,
      external_vcc = False, buff = Some (0x40, [0x81, 0x7E, 0x03, 0xC0]), buff_size = 4\<rparr> True = Some d1 \<and>
      set_bit_count d1 = 12)"
proof -
  let ?d = "\<lparr>width = 2, height = 16, pages = 2, i2c_addr = 0x3C, i2c_inst = 0,
      external_vcc = False, buff = Some (0x40, [0x81, 0x7E, 0x03, 0xC0 :: u8]), buff_size = 4\<rparr>"
  have h: "fb_inv ?d \<and> 0 < unat (pages ?d) \<and> buff_size ?d \<le> 65536"
    by (simp add: fb_inv_def)
  have c: "set_bit_count ?d = 12" by code_simp
  from scroll_row_vert_keeps_bit_count [of ?d True, THEN mp, OF h]
  obtain d1 where "ssd1306_scroll_row_vert ?d True = Some d1" "set_bit_count d1 = set_bit_count ?d"
    by (elim exE conjE)
  with h c show ?thesis by (intro conjI exI [of _ d1]) simp_all
qed

end
